theory Spec2Isabelle
  imports Complex_Main "HOL-Library.Multiset" "HOL-Library.AList" "HOL-Library.Monad_Syntax"
begin

section \<open>JavaScript strings and the builtins the engine calls\<close>

text \<open>
  A JavaScript string is a sequence of UTF-16 code units; a code unit is a natural number.
  \<open>js\<close> turns an ASCII literal into such a string. The builtins below are the ones
  \<^verbatim>\<open>lib/derpprobe.ts\<close> calls on strings: \<^verbatim>\<open>trim\<close>, \<^verbatim>\<open>split\<close> with a one-unit
  separator, \<^verbatim>\<open>includes\<close>, \<^verbatim>\<open>startsWith\<close> and the conversion of an integer to its
  decimal string. \<^verbatim>\<open>toLowerCase\<close> and \<^verbatim>\<open>localeCompare\<close> depend on the Unicode data of
  the host: they are parameters of the functions that call them.
\<close>

type_synonym jsstring = "nat list"

definition js :: "string \<Rightarrow> jsstring" where
  "js s = map of_char s"

definition isLineTerminator :: "nat \<Rightarrow> bool" where
  "isLineTerminator c = (c = 10 \<or> c = 13 \<or> c = 8232 \<or> c = 8233)"

text \<open>White space as \<^verbatim>\<open>trim\<close> and the regular expression class \<^verbatim>\<open>\s\<close> see it:
  TAB, VT, FF, SP, NBSP, the other space separators, the byte order mark and the line
  terminators.\<close>

definition isWhiteSpace :: "nat \<Rightarrow> bool" where
  "isWhiteSpace c =
     (c = 9 \<or> c = 11 \<or> c = 12 \<or> c = 32 \<or> c = 160 \<or> c = 5760 \<or>
      (8192 \<le> c \<and> c \<le> 8202) \<or> c = 8239 \<or> c = 8287 \<or> c = 12288 \<or> c = 65279 \<or>
      isLineTerminator c)"

definition isDigit :: "nat \<Rightarrow> bool" where
  "isDigit c = (48 \<le> c \<and> c \<le> 57)"

text \<open>A word character of \<^verbatim>\<open>\b\<close>: an ASCII letter, a digit or the underscore.\<close>

definition isWordChar :: "nat \<Rightarrow> bool" where
  "isWordChar c = ((65 \<le> c \<and> c \<le> 90) \<or> (97 \<le> c \<and> c \<le> 122) \<or> isDigit c \<or> c = 95)"

definition trim :: "jsstring \<Rightarrow> jsstring" where
  "trim s = rev (dropWhile isWhiteSpace (rev (dropWhile isWhiteSpace s)))"

text \<open>\<^verbatim>\<open>s.split(sep)\<close> for a separator of one code unit; the empty string gives one
  empty piece.\<close>

fun splitAcc :: "nat \<Rightarrow> jsstring \<Rightarrow> jsstring \<Rightarrow> jsstring list" where
  "splitAcc sep acc [] = [rev acc]"
| "splitAcc sep acc (c # cs) =
     (if c = sep then rev acc # splitAcc sep [] cs else splitAcc sep (c # acc) cs)"

definition split_js :: "nat \<Rightarrow> jsstring \<Rightarrow> jsstring list" where
  "split_js sep s = splitAcc sep [] s"

definition startsWith :: "jsstring \<Rightarrow> jsstring \<Rightarrow> bool" where
  "startsWith s p = (take (length p) s = p)"

fun includes_js :: "jsstring \<Rightarrow> jsstring \<Rightarrow> bool" where
  "includes_js [] p = (p = [])"
| "includes_js (c # cs) p = (startsWith (c # cs) p \<or> includes_js cs p)"

fun natToString :: "nat \<Rightarrow> jsstring" where
  "natToString n = (if n < 10 then [48 + n] else natToString (n div 10) @ [48 + n mod 10])"

declare natToString.simps [simp del]

definition intToString :: "int \<Rightarrow> jsstring" where
  "intToString i = (if i < 0 then 45 # natToString (nat (- i)) else natToString (nat i))"

text \<open>Truthiness of a string: \<^verbatim>\<open>filter(Boolean)\<close> and \<^verbatim>\<open>!s\<close> test for the empty string.\<close>

definition truthy :: "jsstring \<Rightarrow> bool" where
  "truthy s = (s \<noteq> [])"

section \<open>JavaScript numbers\<close>

text \<open>
  A JavaScript number is a double. The model writes numbers as rationals: clock readings,
  exit codes and timeouts as integers, latencies and region ids as rationals. A number
  the code reads from a decimal text, be it \<^verbatim>\<open>Number(text)\<close> or the result of
  \<^verbatim>\<open>toFixed\<close>, is written as that decimal and stands for the double nearest to it.
  Where the code rounds what a division or a sum produced, the operation is carried out
  on doubles: \<open>fl x\<close> is the double nearest to the rational \<open>x\<close>, ties going to the
  even significand, with gradual underflow, and the rounding that follows is taken on
  its exact value. A result of magnitude \<open>2 ^ 1024\<close> or more is what JavaScript holds as
  an infinity.
\<close>

text \<open>The integer nearest to \<open>m\<close>, the even one of two equally near ones.\<close>

definition rne :: "rat \<Rightarrow> rat" where
  "rne m =
     (let f = \<lfloor>m\<rfloor>; r = m - of_int f
      in if r < 1 / 2 then of_int f
         else if r > 1 / 2 then of_int (f + 1)
         else if even f then of_int f else of_int (f + 1))"

text \<open>A significand has 53 bits: a value of \<open>2 ^ 53 = 9007199254740992\<close> or more is halved
  until it is below that, rounded to an integer and scaled back.\<close>

function flUp :: "rat \<Rightarrow> rat" where
  "flUp m = (if m \<ge> 9007199254740992 then 2 * flUp (m / 2) else rne m)"
  by pat_completeness auto
termination
proof (relation "measure (\<lambda>m. nat \<lfloor>m\<rfloor>)")
  show "wf (measure (\<lambda>m :: rat. nat \<lfloor>m\<rfloor>))"
    by simp
next
  fix m :: rat
  assume a: "9007199254740992 \<le> m"
  then have "m / 2 \<le> m - 1"
    by simp
  then have "\<lfloor>m / 2\<rfloor> \<le> \<lfloor>m - 1\<rfloor>"
    by (rule floor_mono)
  then have "\<lfloor>m / 2\<rfloor> < \<lfloor>m\<rfloor>"
    by simp
  moreover have "0 < \<lfloor>m\<rfloor>"
    using a by (simp add: le_floor_iff)
  ultimately show "(m / 2, m) \<in> measure (\<lambda>m. nat \<lfloor>m\<rfloor>)"
    by simp
qed

declare flUp.simps [simp del]

text \<open>A value below \<open>2 ^ 52 = 4503599627370496\<close> is doubled until it is at least that
  or the quantum has reached \<open>2 ^ - 1074\<close>, the spacing of the subnormal doubles; \<open>e\<close> is
  the exponent of the quantum.\<close>

function flDown :: "rat \<Rightarrow> int \<Rightarrow> rat" where
  "flDown m e =
     (if m < 4503599627370496 \<and> e > - 1074 then flDown (2 * m) (e - 1) / 2 else rne m)"
  by pat_completeness auto
termination
  by (relation "measure (\<lambda>(m, e). nat (e + 1074))") auto

declare flDown.simps [simp del]

definition flPos :: "rat \<Rightarrow> rat" where
  "flPos x = (if x \<ge> 9007199254740992 then flUp x else flDown x 0)"

definition fl :: "rat \<Rightarrow> rat" where
  "fl x = (if x = 0 then 0 else if x < 0 then - flPos (- x) else flPos x)"

text \<open>\<^verbatim>\<open>Number.isFinite\<close> of a number whose double is \<open>x\<close>.\<close>

definition isFinite :: "rat \<Rightarrow> bool" where
  "isFinite x = (\<bar>x\<bar> < 2 ^ 1024)"

section \<open>Argument assembly and the effective timeout\<close>

definition DEFAULT_TIMEOUT_MS :: int where "DEFAULT_TIMEOUT_MS = 75000"
definition MIN_ONCE_TIMEOUT_MS :: int where "MIN_ONCE_TIMEOUT_MS = 65000"

definition isJsonFlag :: "jsstring \<Rightarrow> bool" where
  "isJsonFlag token =
     (token = js ''-json'' \<or> token = js ''--json'' \<or> startsWith token (js ''--json=''))"

definition parseArgs :: "jsstring \<Rightarrow> jsstring list" where
  "parseArgs argsText =
     (if \<not> truthy (trim argsText) then [js ''-once'']
      else filter (\<lambda>token. \<not> isJsonFlag token)
             (filter truthy (map trim (split_js 32 argsText))))"

definition isDerpMapToken :: "jsstring \<Rightarrow> bool" where
  "isDerpMapToken token =
     (token = js ''-derp-map'' \<or> token = js ''--derp-map'' \<or>
      startsWith token (js ''-derp-map='') \<or> startsWith token (js ''--derp-map=''))"

fun hasDerpMapFlag :: "jsstring list \<Rightarrow> bool" where
  "hasDerpMapFlag [] = False"
| "hasDerpMapFlag (token # rest) = (if isDerpMapToken token then True else hasDerpMapFlag rest)"

definition appendDerpMapArg :: "jsstring list \<Rightarrow> jsstring option \<Rightarrow> jsstring list" where
  "appendDerpMapArg args derpMap =
     (case derpMap of
        None \<Rightarrow> args
      | Some m \<Rightarrow>
          if \<not> truthy m \<or> \<not> truthy (trim m) then args
          else if hasDerpMapFlag args then args
          else args @ [js ''-derp-map'', trim m])"

definition isOnceToken :: "jsstring \<Rightarrow> bool" where
  "isOnceToken token =
     (token = js ''-once'' \<or> token = js ''--once'' \<or>
      startsWith token (js ''-once='') \<or> startsWith token (js ''--once=''))"

fun hasOnceFlag :: "jsstring list \<Rightarrow> bool" where
  "hasOnceFlag [] = False"
| "hasOnceFlag (token # rest) = (if isOnceToken token then True else hasOnceFlag rest)"

definition resolveTimeoutMs :: "int \<Rightarrow> jsstring list \<Rightarrow> int" where
  "resolveTimeoutMs baseTimeoutMs args =
     (if hasOnceFlag args \<and> baseTimeoutMs < MIN_ONCE_TIMEOUT_MS then MIN_ONCE_TIMEOUT_MS
      else baseTimeoutMs)"

section \<open>LatencyCalibrator\<close>

definition PROBE_WINDOW_SIZE :: nat where "PROBE_WINDOW_SIZE = 10"
definition CALIBRATION_WINDOW_MINS :: int where "CALIBRATION_WINDOW_MINS = 10"
definition CALIBRATION_FALLBACK_MS :: rat where "CALIBRATION_FALLBACK_MS = 10"
definition CALIBRATION_WARMUP_MINS :: int where "CALIBRATION_WARMUP_MINS = 2"

record DelayPoint =
  timestamp :: int
  rtt :: rat

text \<open>The closure \<^verbatim>\<open>createLatencyCalibrator\<close> returns keeps \<^verbatim>\<open>windowSize\<close>,
  \<^verbatim>\<open>warmupPeriod\<close>, \<^verbatim>\<open>fallbackMs\<close>, \<^verbatim>\<open>startTime\<close> and the mutable \<^verbatim>\<open>deque\<close>: the
  record is its captured environment. \<open>dateNow\<close> is the reading of \<^verbatim>\<open>Date.now()\<close> at
  creation.\<close>

record LatencyCalibrator =
  windowSize :: int
  warmupPeriod :: int
  fallbackMs :: rat
  startTime :: int
  deque :: "DelayPoint list"

definition createLatencyCalibrator :: "int \<Rightarrow> rat \<Rightarrow> int \<Rightarrow> int \<Rightarrow> LatencyCalibrator" where
  "createLatencyCalibrator windowMins fallback warmupMins dateNow =
     \<lparr>windowSize = windowMins * 60 * 1000,
      warmupPeriod = warmupMins * 60 * 1000,
      fallbackMs = fallback,
      startTime = dateNow,
      deque = []\<rparr>"

text \<open>First loop: \<^verbatim>\<open>while (deque.length > 0 && currentTime - deque[0].timestamp > windowSize) deque.shift()\<close>.\<close>

fun evictOld :: "int \<Rightarrow> int \<Rightarrow> DelayPoint list \<Rightarrow> DelayPoint list" where
  "evictOld w t [] = []"
| "evictOld w t (p # ps) = (if t - timestamp p > w then evictOld w t ps else p # ps)"

text \<open>Second loop: \<^verbatim>\<open>while (deque.length > 0 && deque[deque.length - 1].rtt >= currentRtt) deque.pop()\<close>.\<close>

function popSlower :: "rat \<Rightarrow> DelayPoint list \<Rightarrow> DelayPoint list" where
  "popSlower r d = (if d \<noteq> [] \<and> rtt (last d) \<ge> r then popSlower r (butlast d) else d)"
  by pat_completeness auto
termination
  by (relation "measure (\<lambda>(r, d). length d)") auto

declare popSlower.simps [simp del]

text \<open>\<^verbatim>\<open>Number(x.toFixed(2))\<close>: the multiple of 1/100 nearest to \<open>x\<close>, the larger in
  magnitude of two equally near ones.\<close>

definition toFixed2 :: "rat \<Rightarrow> rat" where
  "toFixed2 x = (if x < 0 then - (of_int (round (- x * 100)) / 100) else of_int (round (x * 100)) / 100)"

definition calibrate :: "LatencyCalibrator \<Rightarrow> rat \<Rightarrow> int \<Rightarrow> LatencyCalibrator \<times> rat" where
  "calibrate c currentRtt currentTime =
     (let d1 = evictOld (windowSize c) currentTime (deque c);
          d2 = popSlower currentRtt d1;
          d3 = d2 @ [\<lparr>timestamp = currentTime, rtt = currentRtt\<rparr>];
          front = (case d3 of [] \<Rightarrow> currentRtt | p # _ \<Rightarrow> rtt p);
          baseline = (if currentTime - startTime c < warmupPeriod c \<and> front > fallbackMs c
                      then fallbackMs c else front);
          netDelay = max 0 (currentRtt - baseline)
      in (c\<lparr>deque := d3\<rparr>, toFixed2 netDelay))"

text \<open>Feeding a calibrator a sequence of \<open>(timestamp, rawRttMs)\<close> samples, oldest first.\<close>

fun feed :: "LatencyCalibrator \<Rightarrow> (int \<times> rat) list \<Rightarrow> LatencyCalibrator" where
  "feed c [] = c"
| "feed c ((t, r) # rest) = feed (fst (calibrate c r t)) rest"

section \<open>Node records and the HistoryTracker\<close>

datatype ProbeStatus = Healthy | Degraded | Down | Unknown

text \<open>A decoded JSON value, as \<^verbatim>\<open>JSON.parse\<close> returns it: an object is the list of its
  own properties in enumeration order.\<close>

datatype json =
    JNull
  | JBool bool
  | JNum rat
  | JStr jsstring
  | JArr "json list"
  | JObj "(jsstring \<times> json) list"

record ProbeNodeResult =
  node_id :: jsstring
  name :: jsstring
  region :: "jsstring option"
  latencyMs :: "rat option"
  lossPct :: "rat option"
  avgLatencyMs :: "rat option"
  status :: ProbeStatus
  message :: "jsstring option"
  checkedAt :: jsstring
  raw :: "json option"

record NodeProbeSample =
  success :: bool
  sampleLatencyMs :: "rat option"

text \<open>The two module-level maps \<^verbatim>\<open>nodeProbeHistory\<close> and \<^verbatim>\<open>nodeLatencyCalibrators\<close>.\<close>

record Smoothing =
  nodeProbeHistory :: "jsstring \<rightharpoonup> NodeProbeSample list"
  nodeLatencyCalibrators :: "jsstring \<rightharpoonup> LatencyCalibrator"

definition emptySmoothing :: Smoothing where
  "emptySmoothing = \<lparr>nodeProbeHistory = Map.empty, nodeLatencyCalibrators = Map.empty\<rparr>"

definition getNodeLatencyCalibrator :: "int \<Rightarrow> Smoothing \<Rightarrow> jsstring \<Rightarrow> LatencyCalibrator" where
  "getNodeLatencyCalibrator dateNow st nodeId =
     (case nodeLatencyCalibrators st nodeId of
        Some existing \<Rightarrow> existing
      | None \<Rightarrow> createLatencyCalibrator CALIBRATION_WINDOW_MINS CALIBRATION_FALLBACK_MS
                  CALIBRATION_WARMUP_MINS dateNow)"

text \<open>\<^verbatim>\<open>history.splice(0, history.length - PROBE_WINDOW_SIZE)\<close> when the window overflows.\<close>

definition pushSample :: "NodeProbeSample list \<Rightarrow> NodeProbeSample \<Rightarrow> NodeProbeSample list" where
  "pushSample history sample =
     (let h = history @ [sample]
      in if length h > PROBE_WINDOW_SIZE then drop (length h - PROBE_WINDOW_SIZE) h else h)"

definition lossOf :: "NodeProbeSample list \<Rightarrow> rat" where
  "lossOf history =
     (let successCount = length (filter success history);
          successRate = (of_nat successCount / of_nat (length history) :: rat)
      in of_int (round ((1 - successRate) * 100)))"

text \<open>The sum a \<^verbatim>\<open>reduce\<close> over numbers builds from 0, one double addition after the
  other.\<close>

definition sumDoubles :: "rat list \<Rightarrow> rat" where
  "sumDoubles xs = foldl (\<lambda>total v. fl (total + fl v)) 0 xs"

definition avgLatencyOf :: "NodeProbeSample list \<Rightarrow> rat option" where
  "avgLatencyOf history =
     (let latencySamples = List.map_filter sampleLatencyMs history
      in if length latencySamples > 0
         then (let avg = fl (sumDoubles latencySamples / of_nat (length latencySamples))
               in Some (if avg \<ge> 1 then of_int (round avg) else toFixed2 avg))
         else None)"

text \<open>One pass of the loop of \<^verbatim>\<open>updateNodeLossFromHistory\<close>. \<open>now\<close> is the clock reading
  taken before the loop, \<open>created\<close> the one a calibrator made in this pass takes.\<close>

definition updateNode :: "int \<Rightarrow> int \<Rightarrow> Smoothing \<Rightarrow> ProbeNodeResult \<Rightarrow> Smoothing \<times> ProbeNodeResult" where
  "updateNode now created st node =
     (let (st1, lat) =
            (case latencyMs node of
               None \<Rightarrow> (st, None)
             | Some l \<Rightarrow>
                 (let (c, out) = calibrate (getNodeLatencyCalibrator created st (node_id node)) l now
                  in (st\<lparr>nodeLatencyCalibrators := (nodeLatencyCalibrators st)(node_id node \<mapsto> c)\<rparr>,
                      Some out)));
          ok = (status node = Healthy \<or> status node = Degraded);
          history = pushSample
                      (case nodeProbeHistory st1 (node_id node) of None \<Rightarrow> [] | Some h \<Rightarrow> h)
                      \<lparr>success = ok, sampleLatencyMs = lat\<rparr>;
          st2 = st1\<lparr>nodeProbeHistory := (nodeProbeHistory st1)(node_id node \<mapsto> history)\<rparr>
      in (st2, node\<lparr>latencyMs := lat,
                    lossPct := Some (lossOf history),
                    avgLatencyMs := avgLatencyOf history\<rparr>))"

fun updateNodeLossFromHistory ::
  "int \<Rightarrow> int \<Rightarrow> Smoothing \<Rightarrow> ProbeNodeResult list \<Rightarrow> Smoothing \<times> ProbeNodeResult list" where
  "updateNodeLossFromHistory now created st [] = (st, [])"
| "updateNodeLossFromHistory now created st (node # rest) =
     (let (st1, node1) = updateNode now created st node;
          (st2, rest1) = updateNodeLossFromHistory now created st1 rest
      in (st2, node1 # rest1))"

section \<open>RegionOrderResolver\<close>

text \<open>The region table \<^verbatim>\<open>loadRegionIdMapFromDerpMap\<close> builds is a parameter
  \<open>regionIdMap\<close> of the functions below: a map from lower-cased region codes to
  region ids. \<^verbatim>\<open>String.prototype.toLowerCase\<close> is a builtin whose result depends on the
  case mappings of the host's Unicode data: it is the parameter \<open>toLowerCase\<close>.\<close>

definition regionSortValue ::
  "(jsstring \<Rightarrow> jsstring) \<Rightarrow> ProbeNodeResult \<Rightarrow> (jsstring \<rightharpoonup> rat) \<Rightarrow> rat option" where
  "regionSortValue toLowerCase node regionIdMap =
     (let codeFromName = toLowerCase (trim (name node));
          codeFromId = (case split_js 45 (node_id node) of
                          [] \<Rightarrow> None
                        | seg # _ \<Rightarrow> Some (toLowerCase (trim seg)));
          codeFromRegion = toLowerCase (trim (case region node of None \<Rightarrow> [] | Some r \<Rightarrow> r))
      in case regionIdMap codeFromName of
           Some v \<Rightarrow> Some v
         | None \<Rightarrow>
             (case Option.bind codeFromId regionIdMap of
                Some v \<Rightarrow> Some v
              | None \<Rightarrow> regionIdMap codeFromRegion))"

definition regionOrEmpty :: "ProbeNodeResult \<Rightarrow> jsstring" where
  "regionOrEmpty node = (case region node of None \<Rightarrow> [] | Some r \<Rightarrow> r)"

text \<open>The comparator handed to \<^verbatim>\<open>nodes.sort\<close>. \<^verbatim>\<open>String.prototype.localeCompare\<close> is
  a builtin whose result depends on the host's collation data: it is the parameter
  \<open>localeCompare\<close>.\<close>

definition compareNodes ::
  "(jsstring \<Rightarrow> jsstring) \<Rightarrow> (jsstring \<Rightarrow> jsstring \<Rightarrow> int) \<Rightarrow> (jsstring \<rightharpoonup> rat) \<Rightarrow>
   ProbeNodeResult \<Rightarrow> ProbeNodeResult \<Rightarrow> rat" where
  "compareNodes toLowerCase localeCompare regionIdMap a b =
     (let aOrder = regionSortValue toLowerCase a regionIdMap;
          bOrder = regionSortValue toLowerCase b regionIdMap;
          byName = (if name a \<noteq> name b then of_int (localeCompare (name a) (name b))
                    else of_int (localeCompare (regionOrEmpty a) (regionOrEmpty b)))
      in case (aOrder, bOrder) of
           (Some x, Some y) \<Rightarrow> if x \<noteq> y then x - y else byName
         | (Some x, None) \<Rightarrow> - 1
         | (None, Some y) \<Rightarrow> 1
         | (None, None) \<Rightarrow> byName)"

text \<open>\<^verbatim>\<open>Array.prototype.sort\<close> is stable; for a comparator that is consistent on the
  elements of the array its result is the sorted permutation that keeps equal elements in
  arrival order, which is what inserting the elements one by one, each after the elements
  it does not precede, computes. For a comparator that is not consistent the order is
  left to the implementation, and is not modelled.\<close>

fun insertSorted :: "('a \<Rightarrow> 'a \<Rightarrow> rat) \<Rightarrow> 'a \<Rightarrow> 'a list \<Rightarrow> 'a list" where
  "insertSorted cmp x [] = [x]"
| "insertSorted cmp x (y # ys) = (if cmp x y < 0 then x # y # ys else y # insertSorted cmp x ys)"

definition sort_js :: "('a \<Rightarrow> 'a \<Rightarrow> rat) \<Rightarrow> 'a list \<Rightarrow> 'a list" where
  "sort_js cmp xs = foldl (\<lambda>acc x. insertSorted cmp x acc) [] xs"

definition sortNodes ::
  "(jsstring \<Rightarrow> jsstring) \<Rightarrow> (jsstring \<Rightarrow> jsstring \<Rightarrow> int) \<Rightarrow> (jsstring \<rightharpoonup> rat) \<Rightarrow>
   ProbeNodeResult list \<Rightarrow> ProbeNodeResult list" where
  "sortNodes toLowerCase localeCompare regionIdMap nodes =
     sort_js (compareNodes toLowerCase localeCompare regionIdMap) nodes"

text \<open>What is assumed of \<^verbatim>\<open>localeCompare\<close> is what ECMA-262 requires of it: it is a
  consistent comparison function on all strings, the three-way comparison of a total
  preorder. Strings that differ may compare as equal, as canonically equivalent strings
  must.\<close>

definition consistentCompare :: "(jsstring \<Rightarrow> jsstring \<Rightarrow> int) \<Rightarrow> bool" where
  "consistentCompare lc =
     ((\<forall>a b. (lc a b < 0) = (lc b a > 0)) \<and>
      (\<forall>a b c. lc a b \<le> 0 \<longrightarrow> lc b c \<le> 0 \<longrightarrow> lc a c \<le> 0))"

text \<open>The comparator of \<^verbatim>\<open>nodes.sort\<close> is consistent on a list when no two names in it
  that differ compare as equal: \<open>separates lc xs\<close> for the names \<open>xs\<close>.\<close>

definition separates :: "(jsstring \<Rightarrow> jsstring \<Rightarrow> int) \<Rightarrow> jsstring list \<Rightarrow> bool" where
  "separates lc xs = list_all (\<lambda>a. list_all (\<lambda>b. lc a b = 0 \<longrightarrow> a = b) xs) xs"

text \<open>Case-sensitive lexical comparison: by code units, the shorter of two strings first
  when it is a prefix of the other.\<close>

fun codeUnitCompare :: "jsstring \<Rightarrow> jsstring \<Rightarrow> int" where
  "codeUnitCompare [] [] = 0"
| "codeUnitCompare [] (y # ys) = - 1"
| "codeUnitCompare (x # xs) [] = 1"
| "codeUnitCompare (x # xs) (y # ys) =
     (if x < y then - 1 else if y < x then 1 else codeUnitCompare xs ys)"

text \<open>The two builtins on basic Latin text, for concrete runs. \<open>asciiLowerCase\<close> is
  \<^verbatim>\<open>toLowerCase\<close> on strings of ASCII characters. \<open>rootCollate\<close> is \<^verbatim>\<open>localeCompare\<close>
  on strings of basic Latin letters and digits under the root collation of the Unicode
  collation algorithm, which is the collation of English: the strings are compared first
  without regard to case, digits before letters and letters in alphabetical order, and
  strings that agree in this are compared by case, lower case first, at the first
  position where the cases differ. On other strings the two functions are not what the
  builtins compute.\<close>

definition isUpper :: "nat \<Rightarrow> bool" where
  "isUpper c = (65 \<le> c \<and> c \<le> 90)"

definition foldCase :: "nat \<Rightarrow> nat" where
  "foldCase c = (if isUpper c then c + 32 else c)"

definition caseWeight :: "nat \<Rightarrow> nat" where
  "caseWeight c = (if isUpper c then 1 else 0)"

definition asciiLowerCase :: "jsstring \<Rightarrow> jsstring" where
  "asciiLowerCase s = map foldCase s"

definition rootCollate :: "jsstring \<Rightarrow> jsstring \<Rightarrow> int" where
  "rootCollate a b =
     (let primary = codeUnitCompare (map foldCase a) (map foldCase b)
      in if primary \<noteq> 0 then primary
         else codeUnitCompare (map caseWeight a) (map caseWeight b))"

text \<open>The order on resolved sort keys: ascending, a node without a key after every node
  with one.\<close>

fun keyLe :: "rat option \<Rightarrow> rat option \<Rightarrow> bool" where
  "keyLe (Some x) (Some y) = (x \<le> y)"
| "keyLe (Some x) None = True"
| "keyLe None (Some y) = False"
| "keyLe None None = True"

text \<open>The comparator read as a strict lexicographic order: by key, then name, then region.\<close>

definition nodeLt ::
  "(jsstring \<Rightarrow> jsstring) \<Rightarrow> (jsstring \<Rightarrow> jsstring \<Rightarrow> int) \<Rightarrow> (jsstring \<rightharpoonup> rat) \<Rightarrow>
   ProbeNodeResult \<Rightarrow> ProbeNodeResult \<Rightarrow> bool" where
  "nodeLt lower lc m a b =
    ((keyLe (regionSortValue lower a m) (regionSortValue lower b m) \<and>
      regionSortValue lower a m \<noteq> regionSortValue lower b m) \<or>
     (regionSortValue lower a m = regionSortValue lower b m \<and>
       (lc (name a) (name b) < 0 \<or>
        (name a = name b \<and> lc (regionOrEmpty a) (regionOrEmpty b) < 0))))"

section \<open>LogParser\<close>

subsection \<open>Regular expressions, matched by hand\<close>

text \<open>\<^verbatim>\<open>\d{n}\<close>, one literal code unit, and the greedy \<^verbatim>\<open>\s+\<close>: each gives the text after
  the match, or \<open>None\<close>. In the expressions below a greedy run is always followed by a
  code unit outside its class, so giving back part of the run never helps a match.\<close>

definition dropDigits :: "nat \<Rightarrow> jsstring \<Rightarrow> jsstring option" where
  "dropDigits n s =
     (if n \<le> length s \<and> list_all isDigit (take n s) then Some (drop n s) else None)"

definition dropUnit :: "nat \<Rightarrow> jsstring \<Rightarrow> jsstring option" where
  "dropUnit u s = (case s of [] \<Rightarrow> None | c # cs \<Rightarrow> if c = u then Some cs else None)"

definition dropSpaces1 :: "jsstring \<Rightarrow> jsstring option" where
  "dropSpaces1 s =
     (case s of
        [] \<Rightarrow> None
      | c # cs \<Rightarrow> if isWhiteSpace c then Some (dropWhile isWhiteSpace cs) else None)"

text \<open>The text after a match of \<^verbatim>\<open>/^\d{4}\/\d{2}\/\d{2}\s+\d{2}:\d{2}:\d{2}\s+/\<close>.\<close>

definition logPrefixRest :: "jsstring \<Rightarrow> jsstring option" where
  "logPrefixRest line =
     dropDigits 4 line \<bind> dropUnit 47 \<bind> dropDigits 2 \<bind> dropUnit 47 \<bind> dropDigits 2 \<bind>
     dropSpaces1 \<bind>
     dropDigits 2 \<bind> dropUnit 58 \<bind> dropDigits 2 \<bind> dropUnit 58 \<bind> dropDigits 2 \<bind>
     dropSpaces1"

definition stripLogPrefix :: "jsstring \<Rightarrow> jsstring" where
  "stripLogPrefix line = trim (case logPrefixRest line of Some rest \<Rightarrow> rest | None \<Rightarrow> line)"

text \<open>\<^verbatim>\<open>stderr.split('\n').map((line) => stripLogPrefix(line)).filter(Boolean)\<close>.\<close>

definition logLines :: "jsstring \<Rightarrow> jsstring list" where
  "logLines stderr = filter truthy (map stripLogPrefix (split_js 10 stderr))"

text \<open>The tail \<^verbatim>\<open>\s*(.+)$\<close> of the line expression, on the text after the second colon.
  \<^verbatim>\<open>.\<close> matches every code unit but a line terminator. When the text is white space
  only, the greedy \<^verbatim>\<open>\s*\<close> gives back its last code unit to \<^verbatim>\<open>(.+)\<close>.\<close>

definition matchRest :: "jsstring \<Rightarrow> jsstring option" where
  "matchRest r =
     (let w = takeWhile isWhiteSpace r; t = dropWhile isWhiteSpace r
      in if t \<noteq> [] then (if list_ex isLineTerminator t then None else Some t)
         else if w \<noteq> [] \<and> \<not> isLineTerminator (last w) then Some [last w]
         else None)"

text \<open>\<^verbatim>\<open>line.match(/^(good|bad):\s+derp\/([^:]+):\s*(.+)$/)\<close>: the groups
  \<open>(level, path, resultText)\<close>.\<close>

definition matchLine :: "jsstring \<Rightarrow> (jsstring \<times> jsstring \<times> jsstring) option" where
  "matchLine line =
     (case (if startsWith line (js ''good:'') then Some (js ''good'', drop 5 line)
            else if startsWith line (js ''bad:'') then Some (js ''bad'', drop 4 line)
            else None) of
        None \<Rightarrow> None
      | Some (level, r1) \<Rightarrow>
          (case dropSpaces1 r1 of
             None \<Rightarrow> None
           | Some r2 \<Rightarrow>
               if \<not> startsWith r2 (js ''derp/'') then None
               else
                 (let r3 = drop 5 r2;
                      path = takeWhile (\<lambda>c. c \<noteq> 58) r3;
                      r4 = dropWhile (\<lambda>c. c \<noteq> 58) r3
                  in if path = [] then None
                     else
                       (case r4 of
                          [] \<Rightarrow> None
                        | _ # r5 \<Rightarrow>
                            (case matchRest r5 of
                               None \<Rightarrow> None
                             | Some resultText \<Rightarrow> Some (level, path, resultText))))))"

subsection \<open>Latency extraction\<close>

definition digitsValue :: "jsstring \<Rightarrow> nat" where
  "digitsValue ds = foldl (\<lambda>a c. 10 * a + (c - 48)) 0 ds"

text \<open>The decimal a text \<open>digits\<close> or \<open>digits.digits\<close> denotes.\<close>

definition decimalValue :: "jsstring \<Rightarrow> jsstring \<Rightarrow> rat" where
  "decimalValue ds fs = of_nat (digitsValue ds) + of_nat (digitsValue fs) / 10 ^ length fs"

text \<open>The code units the first letter of \<^verbatim>\<open>(ms|\<mu>s|\<mu>s|us)\<close> matches under the
  \<^verbatim>\<open>i\<close> flag: m, M; the micro sign U+00B5 and the Greek mu U+03BC, U+039C, which share
  one upper case; u, U. The second letter matches s and S.\<close>

definition isUnitStart :: "nat \<Rightarrow> bool" where
  "isUnitStart c = (c = 109 \<or> c = 77 \<or> c = 181 \<or> c = 956 \<or> c = 924 \<or> c = 117 \<or> c = 85)"

text \<open>A match of \<^verbatim>\<open>/([0-9]+(?:\.[0-9]+)?)\s*(ms|\<mu>s|\<mu>s|us)\b/i\<close> that starts at the head of
  the text: the digits before and after the point, and the unit as written.\<close>

definition matchLatencyAt :: "jsstring \<Rightarrow> (jsstring \<times> jsstring \<times> jsstring) option" where
  "matchLatencyAt s =
     (let ds = takeWhile isDigit s; r1 = dropWhile isDigit s
      in if ds = [] then None
         else
           (let (fs, r2) =
                  (case r1 of
                     [] \<Rightarrow> ([], r1)
                   | c # r \<Rightarrow>
                       if c = 46 \<and> takeWhile isDigit r \<noteq> []
                       then (takeWhile isDigit r, dropWhile isDigit r)
                       else ([], r1));
                r3 = dropWhile isWhiteSpace r2
            in case r3 of
                 u # s' # r4 \<Rightarrow>
                   if isUnitStart u \<and> (s' = 115 \<or> s' = 83) \<and>
                      (case r4 of [] \<Rightarrow> True | c # _ \<Rightarrow> \<not> isWordChar c)
                   then Some (ds, fs, [u, s'])
                   else None
               | _ \<Rightarrow> None))"

text \<open>\<^verbatim>\<open>text.match\<close> tries the start positions from left to right.\<close>

fun searchLatency :: "jsstring \<Rightarrow> (jsstring \<times> jsstring \<times> jsstring) option" where
  "searchLatency [] = None"
| "searchLatency (c # cs) =
     (case matchLatencyAt (c # cs) of Some r \<Rightarrow> Some r | None \<Rightarrow> searchLatency cs)"

text \<open>\<^verbatim>\<open>match[2].toLowerCase()\<close>. The unit group matches two code units: m, M, u, U, the
  micro sign or a Greek mu, then s or S. Of these M, U, S and the capital mu U+039C have a
  lower case of their own; the others are their own lower case.\<close>

definition unitToLowerCase :: "jsstring \<Rightarrow> jsstring" where
  "unitToLowerCase unitText =
     map (\<lambda>c. if c = 77 then 109 else if c = 85 then 117 else if c = 83 then 115
               else if c = 924 then 956 else c) unitText"

text \<open>\<^verbatim>\<open>Number(match[1])\<close> is the double nearest to the decimal, an infinity when the
  decimal is too large. \<^verbatim>\<open>Math.round\<close> and \<^verbatim>\<open>toFixed\<close> round the exact value of the
  double they are given. A double of \<open>10 ^ 21\<close> or more, which \<^verbatim>\<open>toFixed\<close> prints in
  full, is an integer, so that \<open>toFixed2\<close> returns it unchanged. The last test
  \<^verbatim>\<open>Number.isFinite(valueMs)\<close> holds whenever the first one does.\<close>

definition parseLatencyMs :: "jsstring \<Rightarrow> rat option" where
  "parseLatencyMs text =
     (case searchLatency text of
        None \<Rightarrow> None
      | Some (ds, fs, unitText) \<Rightarrow>
          (let value = fl (decimalValue ds fs)
           in if \<not> isFinite value then None
              else
                (let unit = unitToLowerCase unitText;
                     valueMs = (if unit = js ''ms'' then of_int (round value)
                                else toFixed2 (fl (value / 1000)))
                 in Some valueMs)))"

text \<open>The texts the unit group matches, and what the whole expression matches at the head
  of a text: a number \<open>ds\<close> or \<open>ds.fs\<close>, white space, a unit \<open>u\<close>, and then the end of
  the text or a character that is not a word character.\<close>

definition latencyUnits :: "jsstring list" where
  "latencyUnits =
     [[109, 115], [109, 83], [77, 115], [77, 83],
      [181, 115], [181, 83], [956, 115], [956, 83], [924, 115], [924, 83],
      [117, 115], [117, 83], [85, 115], [85, 83]]"

definition startsWithLatency :: "jsstring \<Rightarrow> jsstring \<Rightarrow> jsstring \<Rightarrow> jsstring \<Rightarrow> bool" where
  "startsWithLatency s ds fs u =
     (\<exists>ws tail.
        s = ds @ (if fs = [] then [] else 46 # fs) @ ws @ u @ tail \<and>
        ds \<noteq> [] \<and> list_all isDigit ds \<and> list_all isDigit fs \<and> list_all isWhiteSpace ws \<and>
        u \<in> set latencyUnits \<and> (tail = [] \<or> \<not> isWordChar (hd tail)))"

definition normalizeProbeMessage :: "jsstring \<Rightarrow> jsstring \<Rightarrow> jsstring" where
  "normalizeProbeMessage probeType resultText =
     (if probeType = js ''udp6'' \<and> includes_js resultText (js ''network is unreachable'')
      then js ''udp6: network is unreachable''
      else probeType @ js '': '' @ resultText)"

subsection \<open>Aggregation by node\<close>

record TempNode =
  t_id :: jsstring
  t_name :: jsstring
  t_region :: "jsstring option"
  good :: nat
  bad :: nat
  badUdp6 :: nat
  nonUdp6Error :: bool
  udpLatencyMs :: "rat option"
  messages :: "jsstring list"

text \<open>What the loop reads off one line: the groups of the line expression and the path
  pieces, when the line matches and its path has at least three pieces.\<close>

record ProbeEvent =
  ev_level :: jsstring
  ev_shortRegion :: jsstring
  ev_cloudRegion :: jsstring
  ev_probeType :: jsstring
  ev_resultText :: jsstring

definition lineEvent :: "jsstring \<Rightarrow> ProbeEvent option" where
  "lineEvent line =
     (case matchLine line of
        None \<Rightarrow> None
      | Some (level, path, resultText) \<Rightarrow>
          (case split_js 47 path of
             shortRegion # cloudRegion # seg # segs \<Rightarrow>
               Some \<lparr>ev_level = level, ev_shortRegion = shortRegion, ev_cloudRegion = cloudRegion,
                     ev_probeType = last (seg # segs), ev_resultText = resultText\<rparr>
           | _ \<Rightarrow> None))"

definition ev_id :: "ProbeEvent \<Rightarrow> jsstring" where
  "ev_id e = ev_shortRegion e @ js ''-'' @ ev_cloudRegion e"

definition isUdp6Unreachable :: "ProbeEvent \<Rightarrow> bool" where
  "isUdp6Unreachable e =
     (ev_probeType e = js ''udp6'' \<and> includes_js (ev_resultText e) (js ''network is unreachable''))"

text \<open>The body of the loop after the line matched: the node is fetched from the map or
  made, updated, and stored back. The map is a list of pairs in insertion order.\<close>

definition applyEvent :: "bool \<Rightarrow> (jsstring \<times> TempNode) list \<Rightarrow> ProbeEvent \<Rightarrow> (jsstring \<times> TempNode) list" where
  "applyEvent isIpv6UnsupportedNetwork nodeMap e =
     (let node = (case map_of nodeMap (ev_id e) of
                    Some n \<Rightarrow> n
                  | None \<Rightarrow> \<lparr>t_id = ev_id e, t_name = ev_shortRegion e,
                             t_region = Some (ev_cloudRegion e), good = 0, bad = 0, badUdp6 = 0,
                             nonUdp6Error = False, udpLatencyMs = None, messages = []\<rparr>);
          node' =
            (if ev_level e = js ''good'' then
               (let n1 = node\<lparr>good := good node + 1\<rparr>
                in if ev_probeType e = js ''udp'' then
                     (case parseLatencyMs (ev_resultText e) of
                        Some latency \<Rightarrow> n1\<lparr>udpLatencyMs := Some latency\<rparr>
                      | None \<Rightarrow> n1)
                   else n1)
             else
               (let n1 = node\<lparr>bad := bad node + 1,
                               messages := messages node @
                                 [normalizeProbeMessage (ev_probeType e) (ev_resultText e)]\<rparr>
                in if isUdp6Unreachable e then
                     (if \<not> isIpv6UnsupportedNetwork then n1\<lparr>badUdp6 := badUdp6 n1 + 1\<rparr> else n1)
                   else n1\<lparr>nonUdp6Error := True\<rparr>))
      in AList.update (ev_id e) node' nodeMap)"

definition processLine :: "bool \<Rightarrow> (jsstring \<times> TempNode) list \<Rightarrow> jsstring \<Rightarrow> (jsstring \<times> TempNode) list" where
  "processLine isIpv6UnsupportedNetwork nodeMap line =
     (case lineEvent line of None \<Rightarrow> nodeMap | Some e \<Rightarrow> applyEvent isIpv6UnsupportedNetwork nodeMap e)"

definition isIpv6UnsupportedNetwork :: "jsstring list \<Rightarrow> bool" where
  "isIpv6UnsupportedNetwork lines =
     list_ex (\<lambda>line. includes_js line (js ''/udp6:'') \<and>
                     includes_js line (js ''network is unreachable'') \<and>
                     (includes_js line (js ''write udp [::]'') \<or>
                      includes_js line (js ''dial udp [::]''))) lines"

definition statusOf :: "TempNode \<Rightarrow> ProbeStatus" where
  "statusOf node =
     (if nonUdp6Error node \<or> (bad node > 0 \<and> good node = 0) then Down
      else if badUdp6 node > 0 then Degraded
      else if good node > 0 then Healthy
      else Unknown)"

fun join_js :: "jsstring \<Rightarrow> jsstring list \<Rightarrow> jsstring" where
  "join_js sep [] = []"
| "join_js sep [x] = x"
| "join_js sep (x # y # ys) = x @ sep @ join_js sep (y # ys)"

definition toResult :: "jsstring \<Rightarrow> TempNode \<Rightarrow> ProbeNodeResult" where
  "toResult checkedAtText node =
     \<lparr>node_id = t_id node, name = t_name node, region = t_region node,
      latencyMs = udpLatencyMs node, lossPct = None, avgLatencyMs = None,
      status = statusOf node,
      message = (if length (messages node) > 0 then Some (join_js (js '' | '') (messages node))
                 else None),
      checkedAt = checkedAtText, raw = None\<rparr>"

definition aggregate :: "jsstring \<Rightarrow> (jsstring \<times> TempNode) list" where
  "aggregate stderr =
     (let lines = logLines stderr
      in foldl (processLine (isIpv6UnsupportedNetwork lines)) [] lines)"

definition parseNodesFromProbeLog ::
  "(jsstring \<Rightarrow> jsstring) \<Rightarrow> (jsstring \<Rightarrow> jsstring \<Rightarrow> int) \<Rightarrow> jsstring \<Rightarrow> jsstring \<Rightarrow>
   (jsstring \<rightharpoonup> rat) \<Rightarrow> ProbeNodeResult list" where
  "parseNodesFromProbeLog toLowerCase localeCompare stderr checkedAtText regionIdMap =
     sortNodes toLowerCase localeCompare regionIdMap
       (map (toResult checkedAtText \<circ> snd) (aggregate stderr))"

subsection \<open>The log as a list of probe events\<close>







section \<open>Response assembly\<close>

record Summary =
  total_n :: nat
  healthy :: nat
  degraded :: nat
  down :: nat
  unknown :: nat
  summaryAvgLatencyMs :: "rat option"

record ProbeResponse =
  ok :: bool
  r_checkedAt :: jsstring
  durationMs :: int
  summary :: Summary
  r_nodes :: "ProbeNodeResult list"
  r_stderr :: "jsstring option"
  error :: "jsstring option"

definition summarize :: "ProbeNodeResult list \<Rightarrow> Summary" where
  "summarize ns =
     (let latencies = List.map_filter latencyMs ns;
          latencyTotal = sumDoubles latencies;
          latencyCount = length latencies
      in \<lparr>total_n = length ns,
          healthy = length (filter (\<lambda>n. status n = Healthy) ns),
          degraded = length (filter (\<lambda>n. status n = Degraded) ns),
          down = length (filter (\<lambda>n. status n = Down) ns),
          unknown = length (filter (\<lambda>n. status n = Unknown) ns),
          summaryAvgLatencyMs =
            (if latencyCount > 0
             then Some (of_int (round (fl (latencyTotal / of_nat latencyCount))))
             else None)\<rparr>)"

definition emptySummary :: Summary where
  "emptySummary =
     \<lparr>total_n = 0, healthy = 0, degraded = 0, down = 0, unknown = 0, summaryAvgLatencyMs = None\<rparr>"

text \<open>The \<^verbatim>\<open>error\<close> field of a completed cycle; \<open>code\<close> is the exit code, \<open>None\<close> for
  \<^verbatim>\<open>null\<close>. The expression is the same in both versions of \<^verbatim>\<open>runDerpprobe\<close>.\<close>

definition closeError :: "bool \<Rightarrow> int option \<Rightarrow> jsstring option" where
  "closeError isOk code =
     (case code of
        Some c \<Rightarrow> if \<not> isOk then Some (js ''derpprobe exited with code '' @ intToString c) else None
      | None \<Rightarrow> if \<not> isOk then Some (js ''derpprobe exited with an unknown error'') else None)"

text \<open>\<^verbatim>\<open>code === 0 || (code === 1 && nodes.every(node => node.status === 'healthy'))\<close>.\<close>

definition closeOk :: "int option \<Rightarrow> ProbeNodeResult list \<Rightarrow> bool" where
  "closeOk code ns = (code = Some 0 \<or> (code = Some 1 \<and> list_all (\<lambda>n. status n = Healthy) ns))"

subsection \<open>The leniency rule of the other version\<close>

definition isIpv6OnlyProbeFailure :: "jsstring \<Rightarrow> bool" where
  "isIpv6OnlyProbeFailure stderr =
     (let lines = logLines stderr;
          badLines = filter (\<lambda>line. startsWith line (js ''bad: derp/'')) lines
      in if length badLines = 0 then False
         else
           (let goodUdp6Lines =
                  filter (\<lambda>line. startsWith line (js ''good: derp/'') \<and>
                                  includes_js line (js ''/udp6:'')) lines;
                goodNonUdp6Lines =
                  filter (\<lambda>line. startsWith line (js ''good: derp/'') \<and>
                                  \<not> includes_js line (js ''/udp6:'')) lines
            in if length goodUdp6Lines > 0 \<or> length goodNonUdp6Lines = 0 then False
               else
                 (let allBadAreUdp6Unreachable =
                        list_all (\<lambda>line. includes_js line (js ''/udp6:'') \<and>
                                          includes_js line (js ''network is unreachable'')) badLines
                  in if \<not> allBadAreUdp6Unreachable then False
                     else
                       (let badNonUdp6Lines =
                              filter (\<lambda>line. \<not> includes_js line (js ''/udp6:'')) badLines
                        in if length badNonUdp6Lines > 0 then False
                           else list_all (\<lambda>line. includes_js line (js ''write udp [::]'') \<or>
                                                  includes_js line (js ''dial udp [::]'')) badLines))))"

text \<open>\<^verbatim>\<open>code === 0 || (code === 1 && isIpv6OnlyProbeFailure(stderr))\<close>.\<close>

definition closeOk_alt :: "int option \<Rightarrow> jsstring \<Rightarrow> bool" where
  "closeOk_alt code stderr = (code = Some 0 \<or> (code = Some 1 \<and> isIpv6OnlyProbeFailure stderr))"

section \<open>ProcessSupervisor\<close>

text \<open>What \<^verbatim>\<open>runDerpprobe\<close> computes before it spawns the process, and the two string
  builtins of the host the parser calls.\<close>

record Config =
  cfg_args :: "jsstring list"
  cfg_timeoutMs :: int
  cfg_regionIdMap :: "jsstring \<rightharpoonup> rat"
  cfg_startedAt :: int
  cfg_toLowerCase :: "jsstring \<Rightarrow> jsstring"
  cfg_localeCompare :: "jsstring \<Rightarrow> jsstring \<Rightarrow> int"

text \<open>\<open>argsText\<close> is \<^verbatim>\<open>process.env.DERPPROBE_ARGS || ''\<close>, \<open>derpMap\<close> is
  \<^verbatim>\<open>DERPPROBE_DERP_MAP\<close>, \<open>configured\<close> is what \<^verbatim>\<open>toNumber\<close> makes of
  \<^verbatim>\<open>DERPPROBE_TIMEOUT_MS\<close>, \<open>table\<close> is the region table loaded from the derp map.\<close>

definition makeConfig ::
  "jsstring \<Rightarrow> jsstring option \<Rightarrow> int option \<Rightarrow> (jsstring \<rightharpoonup> rat) \<Rightarrow> int \<Rightarrow>
   (jsstring \<Rightarrow> jsstring) \<Rightarrow> (jsstring \<Rightarrow> jsstring \<Rightarrow> int) \<Rightarrow> Config" where
  "makeConfig argsText derpMap configured table now lower lc =
     (let as = appendDerpMapArg (parseArgs argsText) derpMap;
          configuredTimeoutMs = (case configured of Some t \<Rightarrow> t | None \<Rightarrow> DEFAULT_TIMEOUT_MS)
      in \<lparr>cfg_args = as, cfg_timeoutMs = resolveTimeoutMs configuredTimeoutMs as,
          cfg_regionIdMap = table, cfg_startedAt = now, cfg_toLowerCase = lower,
          cfg_localeCompare = lc\<rparr>)"

text \<open>The events the promise body reacts to. Every event carries the readings of the
  clock its handler takes: the text of \<^verbatim>\<open>new Date().toISOString()\<close> and the values of
  \<^verbatim>\<open>Date.now()\<close>, in the order the handler reads them. \<open>ProcessError\<close> starts with the
  error's message, \<open>ProcessClose\<close> with the exit code.\<close>

datatype Event =
    TimeoutExpired jsstring int
  | StderrData jsstring
  | ProcessError jsstring jsstring int
  | ProcessClose "int option" jsstring int int int

text \<open>The variables of the promise body, the signal sent to the child, whether the timer
  was cleared, the calls of \<^verbatim>\<open>resolve\<close> in order, and the module-level maps.\<close>

record Supervisor =
  stderrText :: jsstring
  settled :: bool
  killedWith :: "jsstring option"
  timerCleared :: bool
  resolved :: "ProbeResponse list"
  smoothing :: Smoothing

definition initialSupervisor :: "Smoothing \<Rightarrow> Supervisor" where
  "initialSupervisor sm =
     \<lparr>stderrText = [], settled = False, killedWith = None, timerCleared = False, resolved = [],
      smoothing = sm\<rparr>"

definition onTimeout :: "Config \<Rightarrow> jsstring \<Rightarrow> int \<Rightarrow> Supervisor \<Rightarrow> Supervisor" where
  "onTimeout cfg checkedAtText endNow s =
     (if settled s then s
      else s\<lparr>settled := True,
             killedWith := Some (js ''SIGTERM''),
             resolved := resolved s @
               [\<lparr>ok = False, r_checkedAt = checkedAtText, durationMs = endNow - cfg_startedAt cfg,
                 summary = emptySummary, r_nodes = [], r_stderr = Some (stderrText s),
                 error = Some (js ''derpprobe timed out after '' @ intToString (cfg_timeoutMs cfg) @
                               js ''ms'')\<rparr>]\<rparr>)"

definition onData :: "jsstring \<Rightarrow> Supervisor \<Rightarrow> Supervisor" where
  "onData chunk s = s\<lparr>stderrText := stderrText s @ chunk\<rparr>"

definition onError :: "Config \<Rightarrow> jsstring \<Rightarrow> jsstring \<Rightarrow> int \<Rightarrow> Supervisor \<Rightarrow> Supervisor" where
  "onError cfg errMessage checkedAtText endNow s =
     (if settled s then s
      else s\<lparr>timerCleared := True,
             settled := True,
             resolved := resolved s @
               [\<lparr>ok = False, r_checkedAt = checkedAtText, durationMs = endNow - cfg_startedAt cfg,
                 summary = emptySummary, r_nodes = [], r_stderr = Some (stderrText s),
                 error = Some errMessage\<rparr>]\<rparr>)"

definition onClose ::
  "Config \<Rightarrow> int option \<Rightarrow> jsstring \<Rightarrow> int \<Rightarrow> int \<Rightarrow> int \<Rightarrow> Supervisor \<Rightarrow> Supervisor" where
  "onClose cfg code checkedAtText histNow created endNow s =
     (if settled s then s
      else
        (let parsed = parseNodesFromProbeLog (cfg_toLowerCase cfg) (cfg_localeCompare cfg)
                        (stderrText s) checkedAtText (cfg_regionIdMap cfg);
             (sm, ns) = updateNodeLossFromHistory histNow created (smoothing s) parsed;
             isOk = closeOk code ns
         in s\<lparr>timerCleared := True,
              settled := True,
              smoothing := sm,
              resolved := resolved s @
                [\<lparr>ok = isOk, r_checkedAt = checkedAtText, durationMs = endNow - cfg_startedAt cfg,
                  summary = summarize ns, r_nodes = ns,
                  r_stderr = (if truthy (trim (stderrText s)) then Some (trim (stderrText s))
                              else None),
                  error = closeError isOk code\<rparr>]\<rparr>))"

fun handle :: "Config \<Rightarrow> Supervisor \<Rightarrow> Event \<Rightarrow> Supervisor" where
  "handle cfg s (TimeoutExpired checkedAtText endNow) = onTimeout cfg checkedAtText endNow s"
| "handle cfg s (StderrData chunk) = onData chunk s"
| "handle cfg s (ProcessError errMessage checkedAtText endNow) =
     onError cfg errMessage checkedAtText endNow s"
| "handle cfg s (ProcessClose code checkedAtText histNow created endNow) =
     onClose cfg code checkedAtText histNow created endNow s"

definition runEvents :: "Config \<Rightarrow> Supervisor \<Rightarrow> Event list \<Rightarrow> Supervisor" where
  "runEvents cfg s evs = foldl (handle cfg) s evs"

fun isTerminal :: "Event \<Rightarrow> bool" where
  "isTerminal (StderrData chunk) = False"
| "isTerminal e = True"

text \<open>The diagnostic text the data events of a sequence deliver.\<close>

fun chunksOf :: "Event list \<Rightarrow> jsstring" where
  "chunksOf [] = []"
| "chunksOf (StderrData chunk # evs) = chunk @ chunksOf evs"
| "chunksOf (e # evs) = chunksOf evs"

section \<open>RawOutputParser\<close>















text \<open>The shape of a calibrator's deque that every call keeps: timestamps in arrival
  order, none later than \<open>t\<close>, round-trip times strictly increasing.\<close>

definition calInv :: "LatencyCalibrator \<Rightarrow> int \<Rightarrow> bool" where
  "calInv c t =
     (sorted (map timestamp (deque c)) \<and> sorted_wrt (<) (map rtt (deque c)) \<and>
      (\<forall>p \<in> set (deque c). timestamp p \<le> t))"

section \<open>Helper facts\<close>

subsection \<open>Rounding to a double\<close>

lemma rne_near: "\<bar>rne m - m\<bar> \<le> 1 / 2"
proof -
  define f where "f = (of_int \<lfloor>m\<rfloor> :: rat)"
  have b: "f \<le> m" "m < f + 1"
    unfolding f_def by linarith+
  have "rne m = f \<and> m - f \<le> 1 / 2 \<or> rne m = f + 1 \<and> m - f \<ge> 1 / 2"
    unfolding rne_def Let_def f_def by auto
  with b show ?thesis
    by (auto simp: abs_le_iff)
qed

lemma rne_nonneg: "0 \<le> m \<Longrightarrow> 0 \<le> rne m"
proof -
  assume "0 \<le> m"
  then have "0 \<le> \<lfloor>m\<rfloor>"
    by simp
  then show ?thesis
    unfolding rne_def Let_def by auto
qed

lemma flUp_near: "4503599627370496 \<le> m \<Longrightarrow> \<bar>flUp m - m\<bar> \<le> m / 9007199254740992"
proof (induction m rule: flUp.induct)
  case (1 m)
  show ?case
  proof (cases "m \<ge> 9007199254740992")
    case True
    then have "4503599627370496 \<le> m / 2"
      by simp
    with 1 True have "\<bar>flUp (m / 2) - m / 2\<bar> \<le> m / 2 / 9007199254740992"
      by blast
    moreover have "\<bar>2 * flUp (m / 2) - m\<bar> = 2 * \<bar>flUp (m / 2) - m / 2\<bar>"
      by (simp add: abs_if)
    ultimately have "\<bar>2 * flUp (m / 2) - m\<bar> \<le> m / 9007199254740992"
      by simp
    moreover have "flUp m = 2 * flUp (m / 2)"
      using True by (subst flUp.simps) simp
    ultimately show ?thesis
      by simp
  next
    case False
    then have "flUp m = rne m"
      by (subst flUp.simps) simp
    moreover have "1 / 2 \<le> m / 9007199254740992"
      using 1(2) by simp
    ultimately show ?thesis
      using rne_near [of m] by simp
  qed
qed

lemma flUp_nonneg: "0 \<le> m \<Longrightarrow> 0 \<le> flUp m"
proof (induction m rule: flUp.induct)
  case (1 m)
  show ?case
  proof (cases "m \<ge> 9007199254740992")
    case True
    with 1 have "0 \<le> flUp (m / 2)"
      by simp
    moreover have "flUp m = 2 * flUp (m / 2)"
      using True by (subst flUp.simps) simp
    ultimately show ?thesis
      by simp
  next
    case False
    then have "flUp m = rne m"
      by (subst flUp.simps) simp
    then show ?thesis
      using 1(2) by (simp add: rne_nonneg)
  qed
qed

lemma flDown_near:
  "0 \<le> m \<Longrightarrow> - 1074 \<le> e \<Longrightarrow>
   \<bar>flDown m e - m\<bar> \<le> m / 9007199254740992 + 1 / (2 * 2 ^ nat (e + 1074))"
proof (induction m e rule: flDown.induct)
  case (1 m e)
  show ?case
  proof (cases "m < 4503599627370496 \<and> e > - 1074")
    case True
    then have s: "flDown m e = flDown (2 * m) (e - 1) / 2"
      by (subst flDown.simps) simp
    from True 1 have ih: "\<bar>flDown (2 * m) (e - 1) - 2 * m\<bar> \<le>
        2 * m / 9007199254740992 + 1 / (2 * 2 ^ nat (e - 1 + 1074))"
      by simp
    from True have "nat (e + 1074) = Suc (nat (e - 1 + 1074))"
      by linarith
    then have p: "(2 :: rat) ^ nat (e + 1074) = 2 * 2 ^ nat (e - 1 + 1074)"
      by simp
    define q :: rat where "q = 2 ^ nat (e - 1 + 1074)"
    have qpos: "0 < q"
      by (simp add: q_def)
    have "\<bar>flDown (2 * m) (e - 1) / 2 - m\<bar> = \<bar>flDown (2 * m) (e - 1) - 2 * m\<bar> / 2"
      by (simp add: abs_if)
    also have "\<dots> \<le> (2 * m / 9007199254740992 + 1 / (2 * q)) / 2"
      using ih unfolding q_def [symmetric] by simp
    also have "\<dots> = m / 9007199254740992 + 1 / (2 * (2 * q))"
      using qpos by (simp add: field_simps)
    finally have "\<bar>flDown (2 * m) (e - 1) / 2 - m\<bar> \<le> m / 9007199254740992 + 1 / (2 * (2 * q))" .
    then show ?thesis
      unfolding s p q_def .
  next
    case False
    have s: "flDown m e = rne m"
      by (subst flDown.simps) (simp only: False if_False)
    show ?thesis
    proof (cases "m < 4503599627370496")
      case True
      with False 1(3) have "e = - 1074"
        by simp
      then show ?thesis
        unfolding s using rne_near [of m] 1(2) by simp
    next
      case F: False
      then have "1 / 2 \<le> m / 9007199254740992"
        by simp
      moreover have "(0 :: rat) \<le> 1 / (2 * 2 ^ nat (e + 1074))"
        by simp
      ultimately show ?thesis
        unfolding s using rne_near [of m] by linarith
    qed
  qed
qed

lemma flDown_nonneg: "0 \<le> m \<Longrightarrow> 0 \<le> flDown m e"
proof (induction m e rule: flDown.induct)
  case (1 m e)
  show ?case
  proof (cases "m < 4503599627370496 \<and> e > - 1074")
    case True
    then have "flDown m e = flDown (2 * m) (e - 1) / 2"
      by (subst flDown.simps) simp
    moreover from True 1 have "0 \<le> flDown (2 * m) (e - 1)"
      by simp
    ultimately show ?thesis
      by simp
  next
    case False
    have "flDown m e = rne m"
      by (subst flDown.simps) (simp only: False if_False)
    then show ?thesis
      using 1(2) by (simp add: rne_nonneg)
  qed
qed

lemma fl_nonneg: "0 \<le> x \<Longrightarrow> 0 \<le> fl x"
  by (simp add: fl_def flPos_def flUp_nonneg flDown_nonneg)

lemma fl_near:
  assumes "0 \<le> x"
  shows "\<bar>fl x - x\<bar> \<le> x / 9007199254740992 + 1 / 2 ^ 1075"
proof (cases "x \<ge> 9007199254740992")
  case True
  then have "fl x = flUp x"
    by (simp add: fl_def flPos_def)
  moreover from True have "\<bar>flUp x - x\<bar> \<le> x / 9007199254740992"
    by (intro flUp_near) simp
  moreover have "(0 :: rat) \<le> 1 / 2 ^ 1075"
    by simp
  ultimately show ?thesis
    by linarith
next
  case False
  have "\<bar>flDown x 0 - x\<bar> \<le> x / 9007199254740992 + 1 / (2 * 2 ^ nat (0 + 1074))"
    using assms by (intro flDown_near) simp_all
  moreover have "(2 :: rat) * 2 ^ nat (0 + 1074) = 2 ^ 1075"
    by simp
  ultimately have "\<bar>flDown x 0 - x\<bar> \<le> x / 9007199254740992 + 1 / 2 ^ 1075"
    by simp
  moreover have "fl x = (if x = 0 then 0 else flDown x 0)"
    using False assms by (simp add: fl_def flPos_def)
  ultimately show ?thesis
    using assms by (cases "x = 0") simp_all
qed


lemma hasOnceFlag_iff: "hasOnceFlag args \<longleftrightarrow> (\<exists>t \<in> set args. isOnceToken t)"
  by (induction args) auto

lemma hasOnceFlag_append: "hasOnceFlag (xs @ ys) \<longleftrightarrow> hasOnceFlag xs \<or> hasOnceFlag ys"
  by (induction xs) auto

lemma isOnceToken_once: "isOnceToken (js ''-once'')"
  by (simp add: isOnceToken_def)

lemma trim_blank_iff: "trim s = [] \<longleftrightarrow> (\<forall>c \<in> set s. isWhiteSpace c)"
proof
  assume "trim s = []"
  then have "\<forall>c \<in> set (dropWhile isWhiteSpace s). isWhiteSpace c"
    by (simp add: trim_def)
  then have "dropWhile isWhiteSpace s = []"
    by (metis hd_dropWhile hd_in_set)
  then show "\<forall>c \<in> set s. isWhiteSpace c"
    by simp
next
  assume "\<forall>c \<in> set s. isWhiteSpace c"
  then have "dropWhile isWhiteSpace s = []"
    by simp
  then show "trim s = []"
    unfolding trim_def by (simp del: dropWhile_eq_Nil_conv)
qed

subsection \<open>The calibrator's two loops\<close>

lemma popSlower_Nil [simp]: "popSlower r [] = []"
  by (simp add: popSlower.simps)

lemma popSlower_snoc [simp]:
  "popSlower r (ys @ [y]) = (if r \<le> rtt y then popSlower r ys else ys @ [y])"
  by (subst popSlower.simps) simp

lemma popSlower_filter:
  "sorted_wrt (<) (map rtt d) \<Longrightarrow> popSlower r d = filter (\<lambda>p. rtt p < r) d"
proof (induction d rule: rev_induct)
  case Nil
  then show ?case by simp
next
  case (snoc y ys)
  from snoc.prems have s: "sorted_wrt (<) (map rtt ys)" and lt: "\<forall>p \<in> set ys. rtt p < rtt y"
    by (auto simp: sorted_wrt_append)
  show ?case
  proof (cases "r \<le> rtt y")
    case True
    then show ?thesis using snoc.IH [OF s] by simp
  next
    case False
    with lt have "\<forall>p \<in> set ys. rtt p < r" by fastforce
    then have "filter (\<lambda>p. rtt p < r) ys = ys" by simp
    then show ?thesis using False by simp
  qed
qed

lemma evictOld_filter:
  "sorted (map timestamp d) \<Longrightarrow> evictOld w t d = filter (\<lambda>p. t - timestamp p \<le> w) d"
proof (induction d)
  case Nil
  then show ?case by simp
next
  case (Cons p ps)
  show ?case
  proof (cases "t - timestamp p > w")
    case True
    then show ?thesis using Cons by simp
  next
    case False
    from Cons.prems have "\<forall>q \<in> set ps. timestamp p \<le> timestamp q" by simp
    then have "\<forall>q \<in> set ps. t - timestamp q \<le> w" using False by fastforce
    then have "filter (\<lambda>p. t - timestamp p \<le> w) ps = ps" by simp
    then show ?thesis using False by simp
  qed
qed

lemma deque_calibrate:
  assumes "calInv c t0" "t0 \<le> t"
  shows "deque (fst (calibrate c r t)) =
     filter (\<lambda>p. t - timestamp p \<le> windowSize c \<and> rtt p < r) (deque c) @
       [\<lparr>timestamp = t, rtt = r\<rparr>]"
proof -
  have 1: "evictOld (windowSize c) t (deque c) =
      filter (\<lambda>p. t - timestamp p \<le> windowSize c) (deque c)"
    using assms by (simp add: evictOld_filter calInv_def)
  have "sorted_wrt (<) (map rtt (filter (\<lambda>p. t - timestamp p \<le> windowSize c) (deque c)))"
    using assms(1) by (simp add: calInv_def sorted_wrt_map sorted_wrt_filter)
  then have "popSlower r (evictOld (windowSize c) t (deque c)) =
      filter (\<lambda>p. rtt p < r) (filter (\<lambda>p. t - timestamp p \<le> windowSize c) (deque c))"
    using 1 by (simp add: popSlower_filter)
  then show ?thesis by (simp add: calibrate_def Let_def conj_commute)
qed

lemma calInv_calibrate:
  assumes "calInv c t0" "t0 \<le> t"
  shows "calInv (fst (calibrate c r t)) t"
  using assms unfolding calInv_def deque_calibrate [OF assms]
  by (auto simp: sorted_append sorted_wrt_append sorted_wrt_map sorted_wrt_filter sorted_filter
      intro: sorted_wrt_filter)

lemma calibrate_params [simp]:
  "windowSize (fst (calibrate c r t)) = windowSize c"
  "warmupPeriod (fst (calibrate c r t)) = warmupPeriod c"
  "fallbackMs (fst (calibrate c r t)) = fallbackMs c"
  "startTime (fst (calibrate c r t)) = startTime c"
  by (simp_all add: calibrate_def Let_def)

lemma feed_params [simp]:
  "windowSize (feed c samples) = windowSize c"
  "warmupPeriod (feed c samples) = warmupPeriod c"
  "fallbackMs (feed c samples) = fallbackMs c"
  "startTime (feed c samples) = startTime c"
  by (induction c samples rule: feed.induct) simp_all

lemma calInv_feed:
  "calInv c t0 \<Longrightarrow> sorted (map fst samples) \<Longrightarrow> \<forall>s \<in> set samples. t0 \<le> fst s \<and> fst s \<le> t \<Longrightarrow>
   t0 \<le> t \<Longrightarrow> calInv (feed c samples) t"
proof (induction c samples arbitrary: t0 rule: feed.induct)
  case (1 c)
  then show ?case by (auto simp: calInv_def)
next
  case (2 c t1 r rest)
  have a: "calInv (fst (calibrate c r t1)) t1"
    using 2 by (auto intro: calInv_calibrate)
  have "calInv (feed (fst (calibrate c r t1)) rest) t"
    using a 2(3,4) by (intro 2(1) [of t1]) auto
  then show ?case by simp
qed

lemma calInv_created: "calInv (createLatencyCalibrator w f u start) t"
  by (simp add: calInv_def createLatencyCalibrator_def)

lemma sorted_wrt_less_hd_min:
  "sorted_wrt (<) (map rtt d) \<Longrightarrow> p \<in> set d \<Longrightarrow> rtt (hd d) \<le> rtt p"
  by (cases d) auto

lemma pushSample_drop: "pushSample h s = drop (length h + 1 - 10) (h @ [s])"
  by (simp add: pushSample_def PROBE_WINDOW_SIZE_def Let_def)

lemma length_pushSample: "length (pushSample h s) \<le> 10"
  by (simp add: pushSample_drop)

lemma updateNode_history:
  "nodeProbeHistory (fst (updateNode now created st node)) =
   (nodeProbeHistory st)(node_id node \<mapsto>
      drop (length (case nodeProbeHistory st (node_id node) of None \<Rightarrow> [] | Some h \<Rightarrow> h) + 1 - 10)
        ((case nodeProbeHistory st (node_id node) of None \<Rightarrow> [] | Some h \<Rightarrow> h) @
         [\<lparr>success = (status node = Healthy \<or> status node = Degraded),
           sampleLatencyMs = latencyMs (snd (updateNode now created st node))\<rparr>]))"
  by (cases "latencyMs node")
     (simp_all add: updateNode_def Let_def pushSample_drop split: prod.split)

lemma updateNode_lossPct:
  "lossPct (snd (updateNode now created st node)) =
   Some (lossOf
      (drop (length (case nodeProbeHistory st (node_id node) of None \<Rightarrow> [] | Some h \<Rightarrow> h) + 1 - 10)
        ((case nodeProbeHistory st (node_id node) of None \<Rightarrow> [] | Some h \<Rightarrow> h) @
         [\<lparr>success = (status node = Healthy \<or> status node = Degraded),
           sampleLatencyMs = latencyMs (snd (updateNode now created st node))\<rparr>])))"
  by (cases "latencyMs node")
     (simp_all add: updateNode_def Let_def pushSample_drop split: prod.split)

lemma updateNode_bounded:
  "\<forall>i w. nodeProbeHistory st i = Some w \<longrightarrow> length w \<le> 10 \<Longrightarrow>
   \<forall>i w. nodeProbeHistory (fst (updateNode now created st node)) i = Some w \<longrightarrow> length w \<le> 10"
  unfolding updateNode_history by auto

lemma updateNodeLossFromHistory_bounded:
  "\<forall>i w. nodeProbeHistory st i = Some w \<longrightarrow> length w \<le> 10 \<Longrightarrow>
   \<forall>i w. nodeProbeHistory (fst (updateNodeLossFromHistory now created st nodes)) i = Some w
         \<longrightarrow> length w \<le> 10"
proof (induction nodes arbitrary: st)
  case Nil
  then show ?case by simp
next
  case (Cons node rest)
  have "\<forall>i w. nodeProbeHistory (fst (updateNode now created st node)) i = Some w \<longrightarrow> length w \<le> 10"
    using Cons.prems by (rule updateNode_bounded)
  from Cons.IH [OF this] show ?case
    by (simp add: split_beta Let_def)
qed

subsection \<open>The comparator is a strict order by key, name and region\<close>

lemma codeUnitCompare_zero: "(codeUnitCompare a b = 0) = (a = b)"
  by (induction a b rule: codeUnitCompare.induct) simp_all

lemma codeUnitCompare_neg: "(codeUnitCompare a b < 0) = ord_class.lexordp a b"
  by (induction a b rule: codeUnitCompare.induct) simp_all

lemma codeUnitCompare_pos: "(codeUnitCompare a b > 0) = ord_class.lexordp b a"
  by (induction a b rule: codeUnitCompare.induct) (simp_all add: not_less_iff_gr_or_eq)

text \<open>A comparison that compares no two different strings as equal is consistent.\<close>

lemma linear_consistentCompare:
  assumes z: "\<And>a b. (lc a b = 0) = (a = b)"
    and n: "\<And>a b. (lc a b < 0) = (lc b a > 0)"
    and t: "\<And>a b c. lc a b < 0 \<Longrightarrow> lc b c < 0 \<Longrightarrow> lc a c < 0"
  shows "consistentCompare lc"
proof -
  have le: "lc a c \<le> 0" if ab: "lc a b \<le> 0" and bc: "lc b c \<le> 0" for a b c
  proof (cases "lc a b = 0")
    case True
    then have "a = b" by (simp add: z)
    with bc show ?thesis by simp
  next
    case False
    with ab have ab': "lc a b < 0" by simp
    show ?thesis
    proof (cases "lc b c = 0")
      case True
      then have "b = c" by (simp add: z)
      with ab show ?thesis by simp
    next
      case False
      with bc have "lc b c < 0" by simp
      with ab' have "lc a c < 0" by (rule t)
      then show ?thesis by simp
    qed
  qed
  show ?thesis
    unfolding consistentCompare_def using n le by blast
qed

lemma linear_separates:
  assumes "\<And>a b. (lc a b = 0) = (a = b)"
  shows "separates lc xs"
  by (simp add: separates_def assms list_all_iff)

lemma consistentCompare_codeUnit: "consistentCompare codeUnitCompare"
proof (rule linear_consistentCompare)
  show "\<And>a b. (codeUnitCompare a b = 0) = (a = b)"
    by (rule codeUnitCompare_zero)
  show "\<And>a b. (codeUnitCompare a b < 0) = (codeUnitCompare b a > 0)"
    by (simp add: codeUnitCompare_neg codeUnitCompare_pos)
  show "\<And>a b c. codeUnitCompare a b < 0 \<Longrightarrow> codeUnitCompare b c < 0 \<Longrightarrow> codeUnitCompare a c < 0"
    unfolding codeUnitCompare_neg by (rule lexordp_trans)
qed

lemma caseKeys_inj:
  "map foldCase a = map foldCase b \<Longrightarrow> map caseWeight a = map caseWeight b \<Longrightarrow> a = b"
proof (induction a arbitrary: b)
  case Nil
  then show ?case by simp
next
  case (Cons x a)
  then obtain y b' where b: "b = y # b'"
    by (cases b) auto
  from Cons.prems b have "foldCase x = foldCase y" "caseWeight x = caseWeight y"
    by simp_all
  then have "x = y"
    by (auto simp: foldCase_def caseWeight_def split: if_splits)
  moreover have "a = b'"
    using Cons.prems b by (intro Cons.IH) simp_all
  ultimately show ?case
    using b by simp
qed

lemma rootCollate_zero: "(rootCollate a b = 0) = (a = b)"
proof
  assume "rootCollate a b = 0"
  then have "map foldCase a = map foldCase b" "map caseWeight a = map caseWeight b"
    by (auto simp: rootCollate_def Let_def codeUnitCompare_zero split: if_splits)
  then show "a = b"
    by (rule caseKeys_inj)
next
  assume "a = b"
  then show "rootCollate a b = 0"
    by (simp add: rootCollate_def codeUnitCompare_zero)
qed

lemma rootCollate_neg:
  "(rootCollate a b < 0) =
     (ord_class.lexordp (map foldCase a) (map foldCase b) \<or>
      (map foldCase a = map foldCase b \<and>
       ord_class.lexordp (map caseWeight a) (map caseWeight b)))"
proof (cases "map foldCase a = map foldCase b")
  case True
  then show ?thesis
    by (simp add: rootCollate_def codeUnitCompare_zero codeUnitCompare_neg lexordp_irreflexive')
next
  case False
  then show ?thesis
    by (simp add: rootCollate_def codeUnitCompare_zero codeUnitCompare_neg)
qed

lemma rootCollate_pos:
  "(rootCollate a b > 0) =
     (ord_class.lexordp (map foldCase b) (map foldCase a) \<or>
      (map foldCase a = map foldCase b \<and>
       ord_class.lexordp (map caseWeight b) (map caseWeight a)))"
proof (cases "map foldCase a = map foldCase b")
  case True
  then show ?thesis
    by (simp add: rootCollate_def codeUnitCompare_zero codeUnitCompare_pos lexordp_irreflexive')
next
  case False
  then show ?thesis
    by (simp add: rootCollate_def codeUnitCompare_zero codeUnitCompare_pos)
qed

lemma consistentCompare_rootCollate: "consistentCompare rootCollate"
proof (rule linear_consistentCompare)
  show "\<And>a b. (rootCollate a b = 0) = (a = b)"
    by (rule rootCollate_zero)
  show "\<And>a b. (rootCollate a b < 0) = (rootCollate b a > 0)"
    unfolding rootCollate_neg rootCollate_pos by auto
  show "rootCollate a c < 0" if "rootCollate a b < 0" "rootCollate b c < 0" for a b c
    using that unfolding rootCollate_neg
    by (elim disjE conjE) (auto dest: lexordp_trans)
qed

lemma consistentCompare_refl: "consistentCompare lc \<Longrightarrow> lc x x = 0"
proof -
  assume "consistentCompare lc"
  then have "(lc x x < 0) = (lc x x > 0)"
    unfolding consistentCompare_def by blast
  then show ?thesis
    by (cases "lc x x < 0") auto
qed

lemma consistentCompare_trans:
  assumes "consistentCompare lc" "lc a b < 0" "lc b c < 0"
  shows "lc a c < 0"
proof (rule ccontr)
  assume "\<not> lc a c < 0"
  then have "\<not> lc c a > 0"
    using assms(1) unfolding consistentCompare_def by blast
  then have ca: "lc c a \<le> 0"
    by simp
  from assms(2) have "lc a b \<le> 0"
    by simp
  with ca assms(1) have "lc c b \<le> 0"
    unfolding consistentCompare_def by blast
  moreover from assms(3) assms(1) have "lc c b > 0"
    unfolding consistentCompare_def by blast
  ultimately show False
    by simp
qed

lemma compareNodes_neg:
  assumes "consistentCompare lc"
  shows "(compareNodes lower lc m a b < 0) = nodeLt lower lc m a b"
proof -
  note r = consistentCompare_refl [OF assms]
  show ?thesis
    unfolding compareNodes_def nodeLt_def Let_def
    by (cases "regionSortValue lower a m"; cases "regionSortValue lower b m") (auto simp: r)
qed

lemma compareNodes_pos:
  assumes "consistentCompare lc"
  shows "(compareNodes lower lc m a b > 0) = nodeLt lower lc m b a"
proof -
  from assms have n: "\<And>x y. (lc x y < 0) = (lc y x > 0)"
    by (simp add: consistentCompare_def)
  note r = consistentCompare_refl [OF assms]
  show ?thesis
    unfolding compareNodes_def nodeLt_def Let_def
    by (cases "regionSortValue lower a m"; cases "regionSortValue lower b m") (auto simp: n r)
qed

lemma keyLt_trans:
  "keyLe x y \<and> x \<noteq> y \<Longrightarrow> keyLe y z \<and> y \<noteq> z \<Longrightarrow> keyLe x z \<and> x \<noteq> z"
  by (cases x; cases y; cases z) auto

lemma keyLe_trans: "keyLe x y \<Longrightarrow> keyLe y z \<Longrightarrow> keyLe x z"
  by (cases x; cases y; cases z) auto

lemma keyLe_antisym: "keyLe x y \<Longrightarrow> keyLe y x \<Longrightarrow> x = y"
  by (cases x; cases y) auto

lemma keyLe_refl: "keyLe x x"
  by (cases x) auto

lemma nameLt_trans:
  assumes "consistentCompare lc"
    and "lc na nb < 0 \<or> (na = nb \<and> lc ra rb < 0)"
    and "lc nb nc < 0 \<or> (nb = nc \<and> lc rb rc < 0)"
  shows "lc na nc < 0 \<or> (na = nc \<and> lc ra rc < 0)"
proof -
  note t = consistentCompare_trans [OF assms(1)]
  from assms(2) show ?thesis
  proof
    assume ab: "lc na nb < 0"
    from assms(3) show ?thesis
    proof
      assume "lc nb nc < 0"
      with ab have "lc na nc < 0" by (rule t)
      then show ?thesis ..
    next
      assume "nb = nc \<and> lc rb rc < 0"
      with ab show ?thesis by simp
    qed
  next
    assume ab: "na = nb \<and> lc ra rb < 0"
    from assms(3) show ?thesis
    proof
      assume "lc nb nc < 0"
      with ab show ?thesis by simp
    next
      assume bc: "nb = nc \<and> lc rb rc < 0"
      from ab bc have "lc ra rc < 0" by (blast intro: t)
      with ab bc show ?thesis by simp
    qed
  qed
qed

lemma nodeLt_trans:
  assumes "consistentCompare lc" "nodeLt lower lc m a b" "nodeLt lower lc m b c"
  shows "nodeLt lower lc m a c"
proof -
  let ?k = "\<lambda>n. regionSortValue lower n m"
  let ?K = "\<lambda>x y. keyLe (?k x) (?k y) \<and> ?k x \<noteq> ?k y"
  let ?N = "\<lambda>x y. lc (name x) (name y) < 0 \<or> (name x = name y \<and> lc (regionOrEmpty x) (regionOrEmpty y) < 0)"
  from assms(2) consider (k1) "?K a b" | (n1) "?k a = ?k b" "?N a b"
    unfolding nodeLt_def by blast
  then show ?thesis
  proof cases
    case k1
    from assms(3) consider (k2) "?K b c" | (n2) "?k b = ?k c" "?N b c"
      unfolding nodeLt_def by blast
    then show ?thesis
    proof cases
      case k2
      with k1 have "?K a c" by (rule keyLt_trans)
      then show ?thesis unfolding nodeLt_def by blast
    next
      case n2
      with k1 have "?K a c" by simp
      then show ?thesis unfolding nodeLt_def by blast
    qed
  next
    case n1
    from assms(3) consider (k2) "?K b c" | (n2) "?k b = ?k c" "?N b c"
      unfolding nodeLt_def by blast
    then show ?thesis
    proof cases
      case k2
      with n1 have "?K a c" by simp
      then show ?thesis unfolding nodeLt_def by blast
    next
      case n2
      have "?N a c" using assms(1) n1(2) n2(2) by (rule nameLt_trans)
      with n1(1) n2(1) show ?thesis unfolding nodeLt_def by simp
    qed
  qed
qed

lemma keyLt_total: "(keyLe x y \<and> x \<noteq> y) \<or> (keyLe y x \<and> y \<noteq> x) \<or> x = y"
  by (cases x; cases y) auto

lemma nodeLt_irrefl:
  assumes "consistentCompare lc"
  shows "\<not> nodeLt lower lc m a a"
  unfolding nodeLt_def using consistentCompare_refl [OF assms] by simp

text \<open>The weak order the comparator induces, written out.\<close>

lemma not_nodeLt_iff:
  assumes "consistentCompare lc"
  shows "(\<not> nodeLt lower lc m b a) =
         (keyLe (regionSortValue lower a m) (regionSortValue lower b m) \<and>
          (regionSortValue lower a m = regionSortValue lower b m \<longrightarrow>
             lc (name a) (name b) \<le> 0 \<and>
             (name a = name b \<longrightarrow> lc (regionOrEmpty a) (regionOrEmpty b) \<le> 0)))"
proof -
  from assms have n: "\<And>x y. (lc y x < 0) = (\<not> lc x y \<le> 0)"
    unfolding consistentCompare_def by (simp add: not_le)
  show ?thesis
  proof (cases "regionSortValue lower a m = regionSortValue lower b m")
    case True
    then show ?thesis
      unfolding nodeLt_def by (auto simp: n keyLe_refl)
  next
    case False
    with keyLt_total [of "regionSortValue lower a m" "regionSortValue lower b m"]
    show ?thesis
      unfolding nodeLt_def by (auto dest: keyLe_antisym)
  qed
qed

lemma separates_eq:
  "separates lc xs \<Longrightarrow> a \<in> set xs \<Longrightarrow> b \<in> set xs \<Longrightarrow> lc a b = 0 \<Longrightarrow> a = b"
  by (simp add: separates_def list_all_iff)

lemma consistentCompare_zero:
  assumes "consistentCompare lc" "lc a b \<le> 0" "lc b a \<le> 0"
  shows "lc a b = 0"
proof (rule ccontr)
  assume "lc a b \<noteq> 0"
  with assms(2) have "lc a b < 0" by simp
  with assms(1) have "lc b a > 0"
    unfolding consistentCompare_def by blast
  with assms(3) show False by simp
qed

text \<open>When no two different names of a list compare as equal, the comparator is
  transitive on the list.\<close>

lemma not_nodeLt_trans:
  assumes lc: "consistentCompare lc" and sep: "separates lc (map name nodes)"
    and mem: "a \<in> set nodes" "b \<in> set nodes" "c \<in> set nodes"
    and ab: "\<not> nodeLt lower lc m b a" and bc: "\<not> nodeLt lower lc m c b"
  shows "\<not> nodeLt lower lc m c a"
proof -
  let ?k = "\<lambda>n. regionSortValue lower n m"
  from lc have t: "\<And>x y z. lc x y \<le> 0 \<Longrightarrow> lc y z \<le> 0 \<Longrightarrow> lc x z \<le> 0"
    unfolding consistentCompare_def by blast
  note ab' = ab [unfolded not_nodeLt_iff [OF lc]]
  note bc' = bc [unfolded not_nodeLt_iff [OF lc]]
  have k: "keyLe (?k a) (?k c)"
    using ab' bc' by (blast intro: keyLe_trans)
  have rest: "lc (name a) (name c) \<le> 0 \<and>
              (name a = name c \<longrightarrow> lc (regionOrEmpty a) (regionOrEmpty c) \<le> 0)"
    if kac: "?k a = ?k c"
  proof -
    have "keyLe (?k b) (?k a)"
      using bc' kac by simp
    with ab' have kab: "?k a = ?k b"
      by (blast intro: keyLe_antisym)
    with kac have kbc: "?k b = ?k c"
      by simp
    from ab' kab have n1: "lc (name a) (name b) \<le> 0"
      and r1: "name a = name b \<longrightarrow> lc (regionOrEmpty a) (regionOrEmpty b) \<le> 0"
      by simp_all
    from bc' kbc have n2: "lc (name b) (name c) \<le> 0"
      and r2: "name b = name c \<longrightarrow> lc (regionOrEmpty b) (regionOrEmpty c) \<le> 0"
      by simp_all
    have n: "lc (name a) (name c) \<le> 0"
      using n1 n2 by (rule t)
    have r: "lc (regionOrEmpty a) (regionOrEmpty c) \<le> 0" if ac: "name a = name c"
    proof -
      from n2 ac have "lc (name b) (name a) \<le> 0"
        by simp
      with lc n1 have "lc (name a) (name b) = 0"
        by (rule consistentCompare_zero)
      moreover have "name a \<in> set (map name nodes)" "name b \<in> set (map name nodes)"
        using mem by simp_all
      ultimately have e: "name a = name b"
        using sep by (blast intro: separates_eq)
      with ac have "name b = name c"
        by simp
      with r1 r2 e show ?thesis
        by (blast intro: t)
    qed
    from n r show ?thesis
      by blast
  qed
  show ?thesis
    unfolding not_nodeLt_iff [OF lc] using k rest by blast
qed

subsection \<open>Sorting by insertion\<close>

lemma splitAcc_first:
  "\<exists>rest. splitAcc sep acc s = (rev acc @ takeWhile (\<lambda>c. c \<noteq> sep) s) # rest"
proof (induction s arbitrary: acc)
  case Nil
  then show ?case by simp
next
  case (Cons a s)
  show ?case
    using Cons.IH [of "a # acc"] Cons.IH [of "[]"] by auto
qed

lemma split_js_first:
  "(case split_js sep s of [] \<Rightarrow> None | seg # _ \<Rightarrow> Some (f seg)) = Some (f (takeWhile (\<lambda>c. c \<noteq> sep) s))"
proof -
  from splitAcc_first [of sep "[]" s] obtain rest where
    "split_js sep s = takeWhile (\<lambda>c. c \<noteq> sep) s # rest"
    by (auto simp: split_js_def)
  then show ?thesis by simp
qed

lemma regionSortValue_resolution:
  "regionSortValue lower n m =
     (case m (lower (trim (name n))) of
        Some v \<Rightarrow> Some v
      | None \<Rightarrow>
          (case m (lower (trim (takeWhile (\<lambda>c. c \<noteq> 45) (node_id n)))) of
             Some v \<Rightarrow> Some v
           | None \<Rightarrow> m (lower (trim (regionOrEmpty n)))))"
  unfolding regionSortValue_def Let_def split_js_first regionOrEmpty_def
  by (simp split: option.split)

lemma list_all_trim: "list_all P s \<Longrightarrow> list_all P (trim s)"
proof -
  assume a: "list_all P s"
  have sub: "set (dropWhile Q xs) \<subseteq> set xs" for Q :: "nat \<Rightarrow> bool" and xs
    by (meson set_dropWhileD subsetI)
  have "set (trim s) \<subseteq> set s"
    unfolding trim_def using sub [of isWhiteSpace s] sub [of isWhiteSpace "rev (dropWhile isWhiteSpace s)"]
    by auto
  with a show ?thesis
    by (auto simp: list_all_iff)
qed

lemma set_insertSorted [simp]: "set (insertSorted cmp x ys) = insert x (set ys)"
  by (induction ys) auto

lemma mset_insertSorted [simp]: "mset (insertSorted cmp x ys) = add_mset x (mset ys)"
  by (induction ys) auto

lemma sorted_insertSorted:
  assumes tr: "\<And>a b c. cmp a b < 0 \<Longrightarrow> cmp b c < 0 \<Longrightarrow> cmp a c < 0"
    and irr: "\<And>a. \<not> cmp a a < 0"
  shows "sorted_wrt (\<lambda>a b. \<not> cmp b a < 0) ys \<Longrightarrow>
         sorted_wrt (\<lambda>a b. \<not> cmp b a < 0) (insertSorted cmp x ys)"
proof (induction ys)
  case Nil
  then show ?case by simp
next
  case (Cons y ys)
  show ?case
  proof (cases "cmp x y < 0")
    case True
    have "\<not> cmp y x < 0"
      using True tr irr by blast
    moreover have "\<forall>z \<in> set ys. \<not> cmp z x < 0"
    proof
      fix z assume "z \<in> set ys"
      with Cons.prems have "\<not> cmp z y < 0" by simp
      with True tr show "\<not> cmp z x < 0" by blast
    qed
    ultimately show ?thesis using True Cons.prems by simp
  next
    case False
    with Cons show ?thesis by simp
  qed
qed

lemma mset_sort_foldl:
  "mset (foldl (\<lambda>acc x. insertSorted cmp x acc) acc xs) = mset acc + mset xs"
  by (induction xs arbitrary: acc) simp_all

lemma sorted_sort_foldl:
  assumes tr: "\<And>a b c. cmp a b < 0 \<Longrightarrow> cmp b c < 0 \<Longrightarrow> cmp a c < 0"
    and irr: "\<And>a. \<not> cmp a a < 0"
  shows "sorted_wrt (\<lambda>a b. \<not> cmp b a < 0) acc \<Longrightarrow>
         sorted_wrt (\<lambda>a b. \<not> cmp b a < 0) (foldl (\<lambda>acc x. insertSorted cmp x acc) acc xs)"
proof (induction xs arbitrary: acc)
  case Nil
  then show ?case by simp
next
  case (Cons x xs)
  have "sorted_wrt (\<lambda>a b. \<not> cmp b a < 0) (insertSorted cmp x acc)"
    using tr irr Cons.prems by (rule sorted_insertSorted)
  then show ?case using Cons.IH by simp
qed

lemma mset_sort_js: "mset (sort_js cmp xs) = mset xs"
  by (simp add: sort_js_def mset_sort_foldl)

lemma sorted_sort_js:
  assumes "\<And>a b c. cmp a b < 0 \<Longrightarrow> cmp b c < 0 \<Longrightarrow> cmp a c < 0"
    and "\<And>a. \<not> cmp a a < 0"
  shows "sorted_wrt (\<lambda>a b. \<not> cmp b a < 0) (sort_js cmp xs)"
  unfolding sort_js_def
proof (rule sorted_sort_foldl)
  show "\<And>a b c. cmp a b < 0 \<Longrightarrow> cmp b c < 0 \<Longrightarrow> cmp a c < 0"
    by (rule assms(1))
  show "\<And>a. \<not> cmp a a < 0"
    by (rule assms(2))
  show "sorted_wrt (\<lambda>a b. \<not> cmp b a < 0) []"
    by simp
qed

lemma sorted_wrt_unique:
  assumes refl: "\<And>a. le a a"
  shows "sorted_wrt le xs \<Longrightarrow> sorted_wrt le ys \<Longrightarrow> mset xs = mset ys \<Longrightarrow>
         (\<forall>a \<in> set xs. \<forall>b \<in> set xs. le a b \<longrightarrow> le b a \<longrightarrow> a = b) \<Longrightarrow> xs = ys"
proof (induction xs arbitrary: ys)
  case Nil
  then show ?case by simp
next
  case (Cons x xs)
  from Cons.prems(3) have "ys \<noteq> []" by auto
  then obtain y ys' where ys: "ys = y # ys'" by (cases ys) auto
  have sets: "set (x # xs) = set (y # ys')"
    using Cons.prems(3) ys by (metis mset_eq_setD)
  have xy: "le x y"
  proof (cases "y = x")
    case True then show ?thesis by (simp add: refl)
  next
    case False
    with sets have "y \<in> set xs" by auto
    with Cons.prems(1) show ?thesis by simp
  qed
  have yx: "le y x"
  proof (cases "y = x")
    case True then show ?thesis by (simp add: refl)
  next
    case False
    with sets have "x \<in> set ys'" by auto
    with Cons.prems(2) ys show ?thesis by simp
  qed
  have "y \<in> set (x # xs)" using sets by simp
  with xy yx Cons.prems(4) have eq: "x = y" by (meson list.set_intros(1))
  with Cons.prems(3) ys have m: "mset xs = mset ys'" by simp
  have "xs = ys'"
    using Cons.prems(1,2,4) ys m by (intro Cons.IH) auto
  with eq ys show ?case by simp
qed

subsection \<open>The latency pattern\<close>

lemma isUnitStart_not_digit: "isUnitStart c \<Longrightarrow> \<not> isDigit c"
  by (auto simp: isUnitStart_def isDigit_def)

lemma isUnitStart_not_space: "isUnitStart c \<Longrightarrow> \<not> isWhiteSpace c"
  by (auto simp: isUnitStart_def isWhiteSpace_def isLineTerminator_def)

lemma isWhiteSpace_not_digit: "isWhiteSpace c \<Longrightarrow> \<not> isDigit c"
  by (auto simp: isWhiteSpace_def isLineTerminator_def isDigit_def)

lemma takeWhile_all_append:
  "list_all P xs \<Longrightarrow> (ys = [] \<or> \<not> P (hd ys)) \<Longrightarrow> takeWhile P (xs @ ys) = xs"
  by (induction xs) (auto simp: takeWhile_eq_Nil_iff)

lemma dropWhile_all_append:
  "list_all P xs \<Longrightarrow> (ys = [] \<or> \<not> P (hd ys)) \<Longrightarrow> dropWhile P (xs @ ys) = ys"
  by (induction xs) (auto simp: dropWhile_eq_self_iff)

lemma matchLatencyAt_number_unit:
  assumes ds: "ds \<noteq> []" "list_all isDigit ds" and fs: "list_all isDigit fs"
    and ws: "list_all isWhiteSpace ws"
    and u: "isUnitStart u" and s: "s' = 115 \<or> s' = 83"
    and tail: "tail = [] \<or> \<not> isWordChar (hd tail)"
  shows "matchLatencyAt (ds @ (if fs = [] then [] else 46 # fs) @ ws @ [u, s'] @ tail) =
         Some (ds, fs, [u, s'])"
proof -
  let ?rest = "ws @ [u, s'] @ tail"
  let ?r1 = "(if fs = [] then [] else 46 # fs) @ ?rest"
  have nd_rest: "?rest = [] \<or> \<not> isDigit (hd ?rest)"
    using ws u by (cases ws) (auto simp: isUnitStart_not_digit isWhiteSpace_not_digit)
  have nd_r1: "?r1 = [] \<or> \<not> isDigit (hd ?r1)"
    using nd_rest by (auto simp: isDigit_def)
  have tk: "takeWhile isDigit (ds @ ?r1) = ds"
    using ds(2) nd_r1 by (rule takeWhile_all_append)
  have dr: "dropWhile isDigit (ds @ ?r1) = ?r1"
    using ds(2) nd_r1 by (rule dropWhile_all_append)
  have tkf: "takeWhile isDigit (fs @ ?rest) = fs"
    using fs nd_rest by (rule takeWhile_all_append)
  have drf: "dropWhile isDigit (fs @ ?rest) = ?rest"
    using fs nd_rest by (rule dropWhile_all_append)
  have sp: "dropWhile isWhiteSpace (ws @ [u, s'] @ tail) = [u, s'] @ tail"
    using ws by (rule dropWhile_all_append) (simp add: isUnitStart_not_space u)
  have frac: "(case ?r1 of
                 [] \<Rightarrow> ([], ?r1)
               | c # r \<Rightarrow>
                   if c = 46 \<and> takeWhile isDigit r \<noteq> []
                   then (takeWhile isDigit r, dropWhile isDigit r)
                   else ([], ?r1)) = (fs, ?rest)"
  proof (cases "fs = []")
    case True
    have "hd ?rest \<noteq> 46"
      using ws u by (cases ws) (auto simp: isUnitStart_def isWhiteSpace_def isLineTerminator_def)
    then show ?thesis
      using True by (cases ?rest) auto
  next
    case False
    then show ?thesis
      using tkf drf by simp
  qed
  have tl: "(case tail of [] \<Rightarrow> True | c # _ \<Rightarrow> \<not> isWordChar c)"
    using tail by (cases tail) auto
  show ?thesis
    unfolding matchLatencyAt_def Let_def tk dr frac
    using ds(1) u s tl sp by simp
qed

lemma searchLatency_at: "matchLatencyAt s = Some r \<Longrightarrow> searchLatency s = Some r"
  by (cases s) (simp_all add: matchLatencyAt_def)

lemma toFixed2_near:
  assumes "0 \<le> x"
  shows "(\<exists>k :: int. toFixed2 x = of_int k / 100) \<and> \<bar>toFixed2 x - x\<bar> \<le> 1 / 200"
proof -
  have t: "toFixed2 x = of_int (round (x * 100)) / 100"
    using assms by (simp add: toFixed2_def)
  have "\<bar>of_int (round (x * 100)) - x * 100\<bar> \<le> 1 / 2"
    by (rule of_int_round_abs_le)
  then have "\<bar>(of_int (round (x * 100)) - x * 100) / 100\<bar> \<le> (1 / 2) / 100"
    by (simp only: abs_divide) (simp add: divide_right_mono)
  then have n: "\<bar>of_int (round (x * 100)) / 100 - x\<bar> \<le> 1 / 200"
    by (simp add: diff_divide_distrib)
  have "\<exists>k :: int. toFixed2 x = of_int k / 100"
    unfolding t by (rule exI) (rule refl)
  moreover have "\<bar>toFixed2 x - x\<bar> \<le> 1 / 200"
    unfolding t by (rule n)
  ultimately show ?thesis by (rule conjI)
qed

lemma decimalValue_nonneg: "0 \<le> decimalValue ds fs"
  by (simp add: decimalValue_def)

lemma latencyUnits_iff:
  "(u \<in> set latencyUnits) = (\<exists>c d. u = [c, d] \<and> isUnitStart c \<and> (d = 115 \<or> d = 83))"
  by (auto simp: latencyUnits_def isUnitStart_def)

lemma matchLatencyAt_parts:
  assumes "matchLatencyAt s = Some (ds, fs, u)"
  shows "startsWithLatency s ds fs u"
proof -
  define r1 where "r1 = dropWhile isDigit s"
  define fr where "fr = (case r1 of
                     [] \<Rightarrow> ([], r1)
                   | c # r \<Rightarrow>
                       if c = 46 \<and> takeWhile isDigit r \<noteq> []
                       then (takeWhile isDigit r, dropWhile isDigit r)
                       else ([], r1))"
  define r2 where "r2 = snd fr"
  define r3 where "r3 = dropWhile isWhiteSpace r2"
  from assms have ds: "ds = takeWhile isDigit s" "ds \<noteq> []"
    unfolding matchLatencyAt_def Let_def
    by (auto split: if_splits prod.splits list.splits)
  from assms have fs: "fs = fst fr"
    unfolding matchLatencyAt_def Let_def fr_def r1_def
    by (auto split: if_splits prod.splits list.splits)
  from assms obtain c d r4 where r3: "r3 = c # d # r4" "u = [c, d]" "isUnitStart c"
      "d = 115 \<or> d = 83" "r4 = [] \<or> \<not> isWordChar (hd r4)"
    unfolding matchLatencyAt_def Let_def r3_def r2_def fr_def r1_def
    by (auto split: if_splits prod.splits list.splits)
  have s: "s = ds @ r1"
    unfolding ds r1_def by simp
  have f: "r1 = (if fs = [] then [] else 46 # fs) @ r2 \<and> list_all isDigit fs"
    unfolding fs r2_def fr_def
    by (cases r1) (auto simp: list_all_iff dest: set_takeWhileD)
  have w: "r2 = takeWhile isWhiteSpace r2 @ r3"
    unfolding r3_def by simp
  have "s = ds @ (if fs = [] then [] else 46 # fs) @ takeWhile isWhiteSpace r2 @ u @ r4"
    using s f w r3(1,2) by simp
  moreover have "list_all isDigit ds"
    unfolding ds by (auto simp: list_all_iff dest: set_takeWhileD)
  moreover have "list_all isWhiteSpace (takeWhile isWhiteSpace r2)"
    by (auto simp: list_all_iff dest: set_takeWhileD)
  moreover have "u \<in> set latencyUnits"
    unfolding latencyUnits_iff using r3 by blast
  ultimately show ?thesis
    unfolding startsWithLatency_def using ds(2) f r3(5) by blast
qed

lemma matchLatencyAt_iff:
  "(matchLatencyAt s = Some (ds, fs, u)) = startsWithLatency s ds fs u"
proof
  assume "matchLatencyAt s = Some (ds, fs, u)"
  then show "startsWithLatency s ds fs u"
    by (rule matchLatencyAt_parts)
next
  assume "startsWithLatency s ds fs u"
  then obtain ws tail c d where
    s: "s = ds @ (if fs = [] then [] else 46 # fs) @ ws @ [c, d] @ tail" "u = [c, d]"
    and h: "ds \<noteq> []" "list_all isDigit ds" "list_all isDigit fs" "list_all isWhiteSpace ws"
    "isUnitStart c" "d = 115 \<or> d = 83" "tail = [] \<or> \<not> isWordChar (hd tail)"
    unfolding startsWithLatency_def latencyUnits_iff by blast
  show "matchLatencyAt s = Some (ds, fs, u)"
    unfolding s using h by (rule matchLatencyAt_number_unit)
qed

lemma matchLatencyAt_None_iff:
  "(matchLatencyAt s = None) = (\<forall>ds fs u. \<not> startsWithLatency s ds fs u)"
proof -
  have "(matchLatencyAt s = None) = (\<forall>ds fs u. matchLatencyAt s \<noteq> Some (ds, fs, u))"
    by (cases "matchLatencyAt s") auto
  then show ?thesis
    by (simp add: matchLatencyAt_iff)
qed

lemma matchLatencyAt_Nil: "matchLatencyAt [] = None"
  by (simp add: matchLatencyAt_def)

lemma matchLatencyAt_no_digit:
  assumes "\<forall>c \<in> set s. \<not> isDigit c"
  shows "matchLatencyAt (drop k s) = None"
proof (cases "drop k s")
  case Nil
  then show ?thesis
    by (simp add: matchLatencyAt_Nil)
next
  case (Cons c cs)
  then have "c \<in> set (drop k s)"
    by simp
  then have "c \<in> set s"
    by (rule in_set_dropD)
  with assms have "\<not> isDigit c"
    by blast
  with Cons show ?thesis
    by (simp add: matchLatencyAt_def)
qed

lemma searchLatency_None:
  "(\<forall>k. matchLatencyAt (drop k str) = None) \<Longrightarrow> searchLatency str = None"
proof (induction str)
  case Nil
  then show ?case by simp
next
  case (Cons c cs)
  from Cons.prems [rule_format, of 0] have h: "matchLatencyAt (c # cs) = None"
    by simp
  have "\<forall>k. matchLatencyAt (drop k cs) = None"
  proof
    fix k
    from Cons.prems [rule_format, of "Suc k"] show "matchLatencyAt (drop k cs) = None"
      by simp
  qed
  then have "searchLatency cs = None"
    by (rule Cons.IH)
  with h show ?case
    by simp
qed

lemma searchLatency_leftmost:
  "matchLatencyAt s = Some r \<Longrightarrow> (\<forall>k < length pre. matchLatencyAt (drop k (pre @ s)) = None) \<Longrightarrow>
   searchLatency (pre @ s) = Some r"
proof (induction pre)
  case Nil
  then show ?case
    by (simp add: searchLatency_at)
next
  case (Cons c pre)
  from Cons.prems(2) [rule_format, of 0] have h: "matchLatencyAt (c # pre @ s) = None"
    by simp
  have "\<forall>k < length pre. matchLatencyAt (drop k (pre @ s)) = None"
  proof (intro allI impI)
    fix k assume "k < length pre"
    with Cons.prems(2) [rule_format, of "Suc k"] show "matchLatencyAt (drop k (pre @ s)) = None"
      by simp
  qed
  with Cons.prems(1) have "searchLatency (pre @ s) = Some r"
    by (rule Cons.IH)
  with h show ?case
    by simp
qed

lemma unitToLowerCase_ms:
  "u \<in> set latencyUnits \<Longrightarrow>
   (unitToLowerCase u = js ''ms'') = (u \<in> {js ''ms'', js ''mS'', js ''Ms'', js ''MS''})"
  by (auto simp: latencyUnits_def unitToLowerCase_def js_def)

lemma microseconds_near:
  assumes "0 \<le> v"
  shows "(\<exists>k :: int. toFixed2 (fl (fl v / 1000)) = of_int k / 100) \<and>
         \<bar>toFixed2 (fl (fl v / 1000)) - fl (fl v / 1000)\<bar> \<le> 1 / 200 \<and>
         \<bar>fl (fl v / 1000) - v / 1000\<bar> \<le> v / 2305843009213693952 + 1 / 2 ^ 1074"
proof -
  define a where "a = fl v"
  define x where "x = fl (a / 1000)"
  define d :: rat where "d = 1 / 2 ^ 1075"
  have a0: "0 \<le> a"
    unfolding a_def using assms by (rule fl_nonneg)
  then have x0: "0 \<le> x"
    unfolding x_def by (intro fl_nonneg) simp
  have d0: "0 \<le> d" and d2: "1 / 2 ^ 1074 = 2 * d"
    unfolding d_def by simp_all
  have e1: "\<bar>a - v\<bar> \<le> v / 9007199254740992 + d"
    unfolding a_def d_def using assms by (rule fl_near)
  have "\<bar>x - a / 1000\<bar> \<le> a / 1000 / 9007199254740992 + d"
    unfolding x_def d_def using a0 by (intro fl_near) simp
  then have e2: "\<bar>x - a / 1000\<bar> \<le> a / 9007199254740992000 + d"
    by simp
  have "\<bar>x - v / 1000\<bar> \<le> v / 2305843009213693952 + 2 * d"
    using e1 e2 assms d0 by (simp add: abs_le_iff)
  then show ?thesis
    using toFixed2_near [OF x0] unfolding x_def a_def d2 by simp
qed

lemma applyEvent_good_udp:
  assumes "ev_level e = js ''good''" "ev_probeType e = js ''udp''"
  shows "\<exists>n. map_of (applyEvent flag nodeMap e) (ev_id e) = Some n \<and>
             udpLatencyMs n =
               (case parseLatencyMs (ev_resultText e) of
                  Some l \<Rightarrow> Some l
                | None \<Rightarrow> (case map_of nodeMap (ev_id e) of
                             None \<Rightarrow> None
                           | Some old \<Rightarrow> udpLatencyMs old))"
  using assms
  by (simp add: applyEvent_def Let_def update_conv' split: option.split)

subsection \<open>The aggregation loop\<close>


















subsection \<open>The handlers of the supervisor\<close>

lemma handle_settled_terminal: "settled s \<Longrightarrow> isTerminal e \<Longrightarrow> handle cfg s e = s"
  by (cases e) (simp_all add: onTimeout_def onError_def onClose_def)

lemma handle_settled_resolved:
  "settled s \<Longrightarrow> resolved (handle cfg s e) = resolved s \<and> settled (handle cfg s e)"
  by (cases e) (simp_all add: onTimeout_def onError_def onClose_def onData_def)

lemma onData_simps [simp]:
  "resolved (onData chunk s) = resolved s"
  "settled (onData chunk s) = settled s"
  "stderrText (onData chunk s) = stderrText s @ chunk"
  by (simp_all add: onData_def)

lemma handle_unsettled_terminal:
  "\<not> settled s \<Longrightarrow> isTerminal e \<Longrightarrow>
   settled (handle cfg s e) \<and> length (resolved (handle cfg s e)) = Suc (length (resolved s))"
  by (cases e) (simp_all add: onTimeout_def onError_def onClose_def Let_def split_beta)

lemma runEvents_Nil [simp]: "runEvents cfg s [] = s"
  by (simp add: runEvents_def)

lemma runEvents_Cons [simp]: "runEvents cfg s (e # evs) = runEvents cfg (handle cfg s e) evs"
  by (simp add: runEvents_def)

lemma runEvents_append: "runEvents cfg s (xs @ ys) = runEvents cfg (runEvents cfg s xs) ys"
  by (simp add: runEvents_def)

lemma runEvents_settled:
  "settled s \<Longrightarrow> resolved (runEvents cfg s evs) = resolved s \<and> settled (runEvents cfg s evs)"
proof (induction evs arbitrary: s)
  case Nil
  then show ?case by simp
next
  case (Cons e evs)
  from handle_settled_resolved [OF Cons.prems, of cfg e]
  have "resolved (handle cfg s e) = resolved s" "settled (handle cfg s e)"
    by simp_all
  with Cons.IH [of "handle cfg s e"] show ?case by simp
qed

lemma runEvents_data_only:
  "\<not> list_ex isTerminal evs \<Longrightarrow>
   resolved (runEvents cfg s evs) = resolved s \<and>
   settled (runEvents cfg s evs) = settled s \<and>
   stderrText (runEvents cfg s evs) = stderrText s @ chunksOf evs"
proof (induction evs arbitrary: s)
  case Nil
  then show ?case by simp
next
  case (Cons e evs)
  from Cons.prems obtain chunk where e: "e = StderrData chunk"
    by (cases e) auto
  from Cons.prems have "\<not> list_ex isTerminal evs" by simp
  from Cons.IH [OF this, of "handle cfg s e"] show ?case
    by (simp add: e)
qed

lemma first_terminal_split:
  "list_ex isTerminal evs \<Longrightarrow>
   \<exists>pre e post. evs = pre @ e # post \<and> isTerminal e \<and> \<not> list_ex isTerminal pre"
proof (induction evs)
  case Nil
  then show ?case by simp
next
  case (Cons x xs)
  show ?case
  proof (cases "isTerminal x")
    case True
    then have "x # xs = [] @ x # xs \<and> isTerminal x \<and> \<not> list_ex isTerminal []"
      by simp
    then show ?thesis by blast
  next
    case False
    with Cons.prems have "list_ex isTerminal xs" by simp
    from Cons.IH [OF this] obtain pre e post where
      "xs = pre @ e # post" "isTerminal e" "\<not> list_ex isTerminal pre"
      by blast
    with False have "x # xs = (x # pre) @ e # post \<and> isTerminal e \<and> \<not> list_ex isTerminal (x # pre)"
      by simp
    then show ?thesis by blast
  qed
qed

lemma runEvents_first_terminal:
  assumes "\<not> settled s" "isTerminal e" "\<not> list_ex isTerminal pre"
  shows "resolved (runEvents cfg s (pre @ e # post)) = resolved (handle cfg (runEvents cfg s pre) e)"
    and "length (resolved (runEvents cfg s (pre @ e # post))) = Suc (length (resolved s))"
    and "settled (runEvents cfg s (pre @ e # post))"
proof -
  let ?p = "runEvents cfg s pre"
  from runEvents_data_only [OF assms(3), of cfg s] assms(1)
  have p: "\<not> settled ?p" "resolved ?p = resolved s"
    by simp_all
  from handle_unsettled_terminal [OF p(1) assms(2), of cfg]
  have h: "settled (handle cfg ?p e)" "length (resolved (handle cfg ?p e)) = Suc (length (resolved ?p))"
    by simp_all
  have r: "runEvents cfg s (pre @ e # post) = runEvents cfg (handle cfg ?p e) post"
    by (simp add: runEvents_append)
  from runEvents_settled [OF h(1), of cfg post]
  show "resolved (runEvents cfg s (pre @ e # post)) = resolved (handle cfg ?p e)"
    and "settled (runEvents cfg s (pre @ e # post))"
    by (simp_all add: r)
  then show "length (resolved (runEvents cfg s (pre @ e # post))) = Suc (length (resolved s))"
    using h(2) p(2) by simp
qed

lemma updateNode_status: "status (snd (updateNode now created st node)) = status node"
  by (simp add: updateNode_def Let_def split_beta)

lemma updateNodeLossFromHistory_status:
  "map status (snd (updateNodeLossFromHistory now created st ns)) = map status ns"
proof (induction ns arbitrary: st)
  case Nil
  then show ?case by simp
next
  case (Cons n ns)
  from Cons.IH [of "fst (updateNode now created st n)"] show ?case
    by (simp add: split_beta Let_def updateNode_status)
qed

lemma isIpv6OnlyProbeFailure_iff:
  "isIpv6OnlyProbeFailure stderr =
     (let lines = logLines stderr;
          bads = filter (\<lambda>line. startsWith line (js ''bad: derp/'')) lines;
          goods = filter (\<lambda>line. startsWith line (js ''good: derp/'')) lines
      in bads \<noteq> [] \<and> goods \<noteq> [] \<and>
         list_all (\<lambda>line. \<not> includes_js line (js ''/udp6:'')) goods \<and>
         list_all (\<lambda>line. includes_js line (js ''/udp6:'') \<and>
                          includes_js line (js ''network is unreachable'') \<and>
                          (includes_js line (js ''write udp [::]'') \<or>
                           includes_js line (js ''dial udp [::]''))) bads)"
  unfolding isIpv6OnlyProbeFailure_def Let_def
  by (auto simp: filter_empty_conv list_all_iff)

lemma intToString_65000: "intToString 65000 = js ''65000''"
  by (simp add: intToString_def js_def natToString.simps)

subsection \<open>The loop of the RawOutputParser\<close>









section \<open>Claims\<close>



text \<open>
  C2. When the close event reaches an invocation that has neither timed out nor failed
  to launch, the response has \<open>ok\<close> exactly when the exit code is 0, or it is 1 and every
  node of the response, equally every node the LogParser returned, has status healthy; if
  \<open>ok\<close> is false and the process has an exit code, the error is
  \<^verbatim>\<open>derpprobe exited with code\<close> followed by the code, which is the case for every code
  other than 0 and 1; if \<open>ok\<close> is true there is no error. In the other version of
  \<^verbatim>\<open>runDerpprobe\<close> the rule for exit code 1 is \<^verbatim>\<open>isIpv6OnlyProbeFailure\<close>: the log has
  failure lines, all of them udp6 "network is unreachable" failures written from the
  unspecified address, and its success lines exist and are all of other probe types; the
  error is formed in the same way.
\<close>

theorem completed_cycle_ok:
  assumes "\<not> settled s"
  shows "\<exists>r. resolved (handle cfg s (ProcessClose code stamp histNow created endNow)) =
               resolved s @ [r] \<and>
             map status (r_nodes r) =
               map status (parseNodesFromProbeLog (cfg_toLowerCase cfg) (cfg_localeCompare cfg)
                             (stderrText s) stamp (cfg_regionIdMap cfg)) \<and>
             ok r = (code = Some 0 \<or>
                     (code = Some 1 \<and> list_all (\<lambda>n. status n = Healthy) (r_nodes r))) \<and>
             (\<forall>c. code = Some c \<and> \<not> ok r \<longrightarrow>
                  error r = Some (js ''derpprobe exited with code '' @ intToString c)) \<and>
             (\<forall>c. code = Some c \<and> c \<noteq> 0 \<and> c \<noteq> 1 \<longrightarrow> \<not> ok r) \<and>
             (ok r \<longrightarrow> error r = None) \<and>
             closeOk_alt code stderr =
               (code = Some 0 \<or>
                (code = Some 1 \<and>
                 (let lines = logLines stderr;
                      bads = filter (\<lambda>line. startsWith line (js ''bad: derp/'')) lines;
                      goods = filter (\<lambda>line. startsWith line (js ''good: derp/'')) lines
                  in bads \<noteq> [] \<and> goods \<noteq> [] \<and>
                     list_all (\<lambda>line. \<not> includes_js line (js ''/udp6:'')) goods \<and>
                     list_all (\<lambda>line. includes_js line (js ''/udp6:'') \<and>
                                      includes_js line (js ''network is unreachable'') \<and>
                                      (includes_js line (js ''write udp [::]'') \<or>
                                       includes_js line (js ''dial udp [::]''))) bads))) \<and>
             (\<forall>c. code = Some c \<and> \<not> closeOk_alt code stderr \<longrightarrow>
                  closeError (closeOk_alt code stderr) code =
                    Some (js ''derpprobe exited with code '' @ intToString c)) \<and>
             (\<forall>c. code = Some c \<and> c \<noteq> 0 \<and> c \<noteq> 1 \<longrightarrow> \<not> closeOk_alt code stderr)"
proof -
  define parsed where "parsed = parseNodesFromProbeLog (cfg_toLowerCase cfg) (cfg_localeCompare cfg)
                    (stderrText s) stamp
                             (cfg_regionIdMap cfg)"
  define upd where "upd = updateNodeLossFromHistory histNow created (smoothing s) parsed"
  define r where "r = \<lparr>ok = closeOk code (snd upd), r_checkedAt = stamp,
      durationMs = endNow - cfg_startedAt cfg, summary = summarize (snd upd), r_nodes = snd upd,
      r_stderr = (if truthy (trim (stderrText s)) then Some (trim (stderrText s)) else None),
      error = closeError (closeOk code (snd upd)) code\<rparr>"
  have res: "resolved (handle cfg s (ProcessClose code stamp histNow created endNow)) =
      resolved s @ [r]"
    using assms by (simp add: onClose_def Let_def split_beta r_def upd_def parsed_def)
  have st: "map status (r_nodes r) = map status parsed"
    by (simp add: r_def upd_def updateNodeLossFromHistory_status)
  have okr: "ok r = (code = Some 0 \<or>
      (code = Some 1 \<and> list_all (\<lambda>n. status n = Healthy) (r_nodes r)))"
    by (simp add: r_def closeOk_def)
  have err: "\<forall>c. code = Some c \<and> \<not> ok r \<longrightarrow>
      error r = Some (js ''derpprobe exited with code '' @ intToString c)"
    by (simp add: r_def closeError_def)
  have other: "\<forall>c. code = Some c \<and> c \<noteq> 0 \<and> c \<noteq> 1 \<longrightarrow> \<not> ok r"
    by (auto simp: r_def closeOk_def)
  have none: "ok r \<longrightarrow> error r = None"
    by (simp add: r_def closeError_def split: option.split)
  have alt: "closeOk_alt code stderr =
      (code = Some 0 \<or>
       (code = Some 1 \<and>
        (let lines = logLines stderr;
             bads = filter (\<lambda>line. startsWith line (js ''bad: derp/'')) lines;
             goods = filter (\<lambda>line. startsWith line (js ''good: derp/'')) lines
         in bads \<noteq> [] \<and> goods \<noteq> [] \<and>
            list_all (\<lambda>line. \<not> includes_js line (js ''/udp6:'')) goods \<and>
            list_all (\<lambda>line. includes_js line (js ''/udp6:'') \<and>
                             includes_js line (js ''network is unreachable'') \<and>
                             (includes_js line (js ''write udp [::]'') \<or>
                              includes_js line (js ''dial udp [::]''))) bads)))"
    unfolding closeOk_alt_def isIpv6OnlyProbeFailure_iff ..
  have alterr: "\<forall>c. code = Some c \<and> \<not> closeOk_alt code stderr \<longrightarrow>
      closeError (closeOk_alt code stderr) code =
        Some (js ''derpprobe exited with code '' @ intToString c)"
    by (simp add: closeError_def)
  have altother: "\<forall>c. code = Some c \<and> c \<noteq> 0 \<and> c \<noteq> 1 \<longrightarrow> \<not> closeOk_alt code stderr"
    by (auto simp: closeOk_alt_def)
  show ?thesis
    unfolding parsed_def [symmetric]
    using res st okr err other none alt alterr altother by blast
qed

theorem completed_cycle_ok_witness:
  "map ok (resolved (handle
      \<lparr>cfg_args = [js ''-once''], cfg_timeoutMs = 65000, cfg_regionIdMap = Map.empty,
        cfg_startedAt = 0, cfg_toLowerCase = asciiLowerCase,
        cfg_localeCompare = codeUnitCompare\<rparr>
      ((initialSupervisor emptySmoothing)\<lparr>stderrText := js ''bad: derp/lhr/eu-west/tcp: i/o timeout''\<rparr>)
      (ProcessClose (Some 2) [] 10 10 10))) = [False] \<and>
   map error (resolved (handle
      \<lparr>cfg_args = [js ''-once''], cfg_timeoutMs = 65000, cfg_regionIdMap = Map.empty,
        cfg_startedAt = 0, cfg_toLowerCase = asciiLowerCase,
        cfg_localeCompare = codeUnitCompare\<rparr>
      ((initialSupervisor emptySmoothing)\<lparr>stderrText := js ''bad: derp/lhr/eu-west/tcp: i/o timeout''\<rparr>)
      (ProcessClose (Some 2) [] 10 10 10))) = [Some (js ''derpprobe exited with code 2'')]"
proof -
  define cfg where "cfg = \<lparr>cfg_args = [js ''-once''], cfg_timeoutMs = 65000,
      cfg_regionIdMap = Map.empty :: jsstring \<rightharpoonup> rat,
      cfg_startedAt = 0, cfg_toLowerCase = asciiLowerCase,
        cfg_localeCompare = codeUnitCompare\<rparr>"
  define s where "s = (initialSupervisor emptySmoothing)
      \<lparr>stderrText := js ''bad: derp/lhr/eu-west/tcp: i/o timeout''\<rparr>"
  have u: "\<not> settled s"
    by (simp add: s_def initialSupervisor_def)
  have two: "intToString 2 = js ''2''"
    by (simp add: intToString_def natToString.simps js_def)
  from completed_cycle_ok [OF u, of cfg "Some 2" "[]" 10 10 10 "[]"]
  obtain r where r: "resolved (handle cfg s (ProcessClose (Some 2) [] 10 10 10)) = resolved s @ [r]"
    and o: "ok r = (Some (2 :: int) = Some 0 \<or>
                     (Some (2 :: int) = Some 1 \<and> list_all (\<lambda>n. status n = Healthy) (r_nodes r)))"
    and e: "\<forall>c. Some (2 :: int) = Some c \<and> \<not> ok r \<longrightarrow>
                  error r = Some (js ''derpprobe exited with code '' @ intToString c)"
    by blast
  from o have nok: "\<not> ok r" by simp
  with e have "error r = Some (js ''derpprobe exited with code '' @ intToString 2)"
    by simp
  then have "error r = Some (js ''derpprobe exited with code 2'')"
    by (simp add: two js_def)
  with nok r show ?thesis
    unfolding cfg_def s_def by (simp add: initialSupervisor_def)
qed

text \<open>
  C3. Let a calibrator, created at time \<open>start\<close> with the engine's constants (window
  10 minutes, fallback 10 ms, warm-up 2 minutes), have been fed samples in non-decreasing
  timestamp order, and let the next sample \<open>(t, r)\<close> be no older than them. Then the call
  keeps exactly the stored samples that are at most 600000 ms old and have a round-trip
  time below \<open>r\<close>, and appends the new sample; the deque is strictly increasing by
  round-trip time with its minimum at the front; the baseline is the front's round-trip
  time, capped at 10 while less than 120000 ms have passed since creation; and the result
  is \<open>max 0 (r - baseline)\<close> rounded to a multiple of 1/100.
\<close>

theorem calibrator_sliding_minimum:
  assumes "sorted (map fst samples)" and "\<forall>s \<in> set samples. fst s \<le> t"
  shows "let c = feed (createLatencyCalibrator CALIBRATION_WINDOW_MINS CALIBRATION_FALLBACK_MS
                         CALIBRATION_WARMUP_MINS start) samples;
             d = deque (fst (calibrate c r t));
             baseline = (if t - start < 120000 \<and> rtt (hd d) > 10 then 10 else rtt (hd d))
         in d = filter (\<lambda>p. t - timestamp p \<le> 600000 \<and> rtt p < r) (deque c) @
                  [\<lparr>timestamp = t, rtt = r\<rparr>] \<and>
            sorted_wrt (<) (map rtt d) \<and>
            (\<forall>p \<in> set d. rtt (hd d) \<le> rtt p) \<and>
            snd (calibrate c r t) = of_int (round (max 0 (r - baseline) * 100)) / 100"
proof -
  define c0 where "c0 = createLatencyCalibrator CALIBRATION_WINDOW_MINS CALIBRATION_FALLBACK_MS
                         CALIBRATION_WARMUP_MINS start"
  define c where "c = feed c0 samples"
  define d where "d = deque (fst (calibrate c r t))"
  define t0 where "t0 = (if samples = [] then t else fst (hd samples))"
  have lo: "\<forall>s \<in> set samples. t0 \<le> fst s"
    using assms(1) by (cases samples) (auto simp: t0_def)
  have t0t: "t0 \<le> t"
    using assms(2) by (cases samples) (auto simp: t0_def)
  have "calInv c0 t0"
    unfolding c0_def by (rule calInv_created)
  then have inv: "calInv c t"
    unfolding c_def using assms lo t0t by (intro calInv_feed [of c0 t0]) auto
  have par: "windowSize c = 600000" "warmupPeriod c = 120000" "fallbackMs c = 10" "startTime c = start"
    by (simp_all add: c_def c0_def createLatencyCalibrator_def CALIBRATION_WINDOW_MINS_def
        CALIBRATION_FALLBACK_MS_def CALIBRATION_WARMUP_MINS_def)
  have dq: "d = filter (\<lambda>p. t - timestamp p \<le> 600000 \<and> rtt p < r) (deque c) @
                  [\<lparr>timestamp = t, rtt = r\<rparr>]"
    unfolding d_def using deque_calibrate [OF inv order_refl, of r] par by simp
  have "calInv (fst (calibrate c r t)) t"
    using inv by (rule calInv_calibrate) simp
  then have inc: "sorted_wrt (<) (map rtt d)"
    by (simp add: calInv_def d_def)
  then have mn: "\<forall>p \<in> set d. rtt (hd d) \<le> rtt p"
    by (blast intro: sorted_wrt_less_hd_min)
  have ne: "d \<noteq> []"
    using dq by simp
  have d3: "popSlower r (evictOld 600000 t (deque c)) @ [\<lparr>timestamp = t, rtt = r\<rparr>] = d"
    by (simp add: d_def calibrate_def Let_def par)
  have front: "(case d of [] \<Rightarrow> r | p # _ \<Rightarrow> rtt p) = rtt (hd d)"
    using ne by (cases d) auto
  have nn: "\<And>b. toFixed2 (max 0 (r - b)) = of_int (round (max 0 (r - b) * 100)) / 100"
    by (simp add: toFixed2_def)
  have out: "snd (calibrate c r t) =
      of_int (round (max 0 (r - (if t - start < 120000 \<and> rtt (hd d) > 10 then 10 else rtt (hd d))) * 100)) / 100"
    unfolding calibrate_def Let_def d3 front par nn snd_conv ..
  show ?thesis
    unfolding Let_def c0_def [symmetric] c_def [symmetric] d_def [symmetric]
    using dq inc mn out by blast
qed

theorem calibrator_sliding_minimum_witness:
  "sorted (map fst [(0 :: int, 31 :: rat), (1000, 25)]) \<and>
   deque (fst (calibrate (feed (createLatencyCalibrator CALIBRATION_WINDOW_MINS
       CALIBRATION_FALLBACK_MS CALIBRATION_WARMUP_MINS 0) [(0, 31), (1000, 25)]) 40 2000))
     = [\<lparr>timestamp = 1000, rtt = 25\<rparr>, \<lparr>timestamp = 2000, rtt = 40\<rparr>] \<and>
   snd (calibrate (feed (createLatencyCalibrator CALIBRATION_WINDOW_MINS
       CALIBRATION_FALLBACK_MS CALIBRATION_WARMUP_MINS 0) [(0, 31), (1000, 25)]) 40 2000) = 30"
proof -
  define c where "c = feed (createLatencyCalibrator CALIBRATION_WINDOW_MINS
       CALIBRATION_FALLBACK_MS CALIBRATION_WARMUP_MINS 0) [(0, 31), (1000, 25)]"
  have s: "sorted (map fst [(0 :: int, 31 :: rat), (1000, 25)])"
    by simp
  have b: "\<forall>s \<in> set [(0 :: int, 31 :: rat), (1000, 25)]. fst s \<le> 2000"
    by simp
  note th = calibrator_sliding_minimum [OF s b, of 0 40, unfolded Let_def, folded c_def]
  have e0: "deque c = [\<lparr>timestamp = 1000, rtt = 25\<rparr>]"
    unfolding c_def by code_simp
  have d: "deque (fst (calibrate c 40 2000)) =
      [\<lparr>timestamp = 1000, rtt = 25\<rparr>, \<lparr>timestamp = 2000, rtt = 40\<rparr>]"
    using th [THEN conjunct1] unfolding e0 by simp
  have "snd (calibrate c 40 2000) = 30"
    using th [THEN conjunct2, THEN conjunct2, THEN conjunct2] unfolding d by simp
  with s d show ?thesis
    unfolding c_def by blast
qed

text \<open>
  C4. Recording a cycle outcome for a node appends one sample to the node's window, whose
  success flag holds exactly when the node's status is healthy or degraded, and keeps the
  last 10 entries (the oldest are dropped first), so the window never exceeds 10; the
  windows of the other nodes are untouched; the node's loss percentage is
  \<open>round ((1 - successCount / windowLength) * 100)\<close> over the stored window; and a
  window of 10 entries with 7 successes gives exactly 30. The bound of 10 holds for every
  node after a whole pass of \<^verbatim>\<open>updateNodeLossFromHistory\<close>.
\<close>

theorem history_window_loss:
  fixes st :: Smoothing and node :: ProbeNodeResult and now created :: int
  defines "old \<equiv> (case nodeProbeHistory st (node_id node) of None \<Rightarrow> [] | Some h \<Rightarrow> h)"
  defines "st' \<equiv> fst (updateNode now created st node)"
  defines "node' \<equiv> snd (updateNode now created st node)"
  defines "sample \<equiv> \<lparr>success = (status node = Healthy \<or> status node = Degraded),
                       sampleLatencyMs = latencyMs node'\<rparr>"
  defines "h \<equiv> drop (length old + 1 - 10) (old @ [sample])"
  shows "nodeProbeHistory st' (node_id node) = Some h \<and>
         length h \<le> 10 \<and>
         (\<forall>i. i \<noteq> node_id node \<longrightarrow> nodeProbeHistory st' i = nodeProbeHistory st i) \<and>
         lossPct node' =
           Some (of_int (round ((1 - of_nat (length (filter success h)) / of_nat (length h)) * 100 :: rat))) \<and>
         (length h = 10 \<and> length (filter success h) = 7 \<longrightarrow> lossPct node' = Some 30) \<and>
         ((\<forall>i w. nodeProbeHistory st i = Some w \<longrightarrow> length w \<le> 10) \<longrightarrow>
          (\<forall>i w. nodeProbeHistory (fst (updateNodeLossFromHistory now created st nodes)) i = Some w
                 \<longrightarrow> length w \<le> 10))"
proof -
  have hist: "nodeProbeHistory st' = (nodeProbeHistory st)(node_id node \<mapsto> h)"
    unfolding st'_def h_def sample_def node'_def old_def
    by (rule updateNode_history)
  have loss: "lossPct node' = Some (lossOf h)"
    unfolding st'_def h_def sample_def node'_def old_def
    by (rule updateNode_lossPct)
  have len: "length h \<le> 10"
    by (simp add: h_def)
  have formula: "lossOf h =
      of_int (round ((1 - of_nat (length (filter success h)) / of_nat (length h)) * 100 :: rat))"
    by (simp add: lossOf_def)
  have thirty: "length h = 10 \<and> length (filter success h) = 7 \<longrightarrow> lossOf h = 30"
    by (simp add: lossOf_def)
  have pass: "(\<forall>i w. nodeProbeHistory st i = Some w \<longrightarrow> length w \<le> 10) \<longrightarrow>
          (\<forall>i w. nodeProbeHistory (fst (updateNodeLossFromHistory now created st nodes)) i = Some w
                 \<longrightarrow> length w \<le> 10)"
    using updateNodeLossFromHistory_bounded [of st now created nodes] by blast
  show ?thesis
    using hist loss len formula thirty pass by simp
qed

theorem history_window_loss_witness:
  "lossPct (snd (updateNode 0 0
      \<lparr>nodeProbeHistory = [js ''nyc-us-east'' \<mapsto>
           replicate 3 \<lparr>success = False, sampleLatencyMs = None\<rparr> @
           replicate 7 \<lparr>success = True, sampleLatencyMs = None\<rparr>],
        nodeLatencyCalibrators = Map.empty\<rparr>
      \<lparr>node_id = js ''nyc-us-east'', name = js ''nyc'', region = Some (js ''us-east''),
        latencyMs = None, lossPct = None, avgLatencyMs = None, status = Down, message = None,
        checkedAt = [], raw = None\<rparr>)) = Some 30"
proof -
  define st where "st = \<lparr>nodeProbeHistory = [js ''nyc-us-east'' \<mapsto>
           replicate 3 \<lparr>success = False, sampleLatencyMs = None\<rparr> @
           replicate 7 \<lparr>success = True, sampleLatencyMs = None\<rparr>],
        nodeLatencyCalibrators = Map.empty\<rparr>"
  define node where "node = \<lparr>node_id = js ''nyc-us-east'', name = js ''nyc'', region = Some (js ''us-east''),
        latencyMs = None, lossPct = None, avgLatencyMs = None, status = Down, message = None,
        checkedAt = [], raw = None\<rparr>"
  have lat: "latencyMs (snd (updateNode 0 0 st node)) = None"
    by (simp add: updateNode_def node_def Let_def)
  have old: "(case nodeProbeHistory st (node_id node) of None \<Rightarrow> [] | Some h \<Rightarrow> h) =
      replicate 3 \<lparr>success = False, sampleLatencyMs = None\<rparr> @
      replicate 7 \<lparr>success = True, sampleLatencyMs = None\<rparr>"
    by (simp add: st_def node_def)
  have st: "status node = Down"
    by (simp add: node_def)
  note th = history_window_loss [where st = st and node = node and now = 0 and created = 0 and nodes = "[]",
      unfolded old lat st]
  have "lossPct (snd (updateNode 0 0 st node)) = Some 30"
    using th by (simp add: numeral_eq_Suc)
  then show ?thesis
    unfolding st_def node_def .
qed

text \<open>
  C5. When the argument list holds a single-shot flag (\<^verbatim>\<open>-once\<close>, \<^verbatim>\<open>--once\<close>, or either
  followed by \<^verbatim>\<open>=\<close> and a value) and the configured timeout is below 65000 ms, the
  effective timeout is exactly 65000 ms; and when the timer then expires before the
  process has exited or failed, the process is sent \<^verbatim>\<open>SIGTERM\<close> and the promise is
  resolved with \<open>ok = False\<close>, an empty node list, the diagnostic text captured so far and
  the error \<^verbatim>\<open>derpprobe timed out after 65000ms\<close>.
\<close>

theorem once_timeout_floor:
  assumes "t \<in> set (cfg_args cfg)"
    and "t = js ''-once'' \<or> t = js ''--once'' \<or> startsWith t (js ''-once='') \<or>
         startsWith t (js ''--once='')"
    and "configured < 65000"
    and "cfg_timeoutMs cfg = resolveTimeoutMs configured (cfg_args cfg)"
    and "\<not> settled s"
  shows "cfg_timeoutMs cfg = 65000 \<and>
         killedWith (handle cfg s (TimeoutExpired stamp endNow)) = Some (js ''SIGTERM'') \<and>
         resolved (handle cfg s (TimeoutExpired stamp endNow)) =
           resolved s @
             [\<lparr>ok = False, r_checkedAt = stamp, durationMs = endNow - cfg_startedAt cfg,
               summary = emptySummary, r_nodes = [], r_stderr = Some (stderrText s),
               error = Some (js ''derpprobe timed out after 65000ms'')\<rparr>]"
proof -
  from assms(1,2) have "hasOnceFlag (cfg_args cfg)"
    unfolding hasOnceFlag_iff isOnceToken_def by blast
  with assms(3,4) have t: "cfg_timeoutMs cfg = 65000"
    by (simp add: resolveTimeoutMs_def MIN_ONCE_TIMEOUT_MS_def)
  have m: "js ''derpprobe timed out after '' @ intToString 65000 @ js ''ms'' =
      js ''derpprobe timed out after 65000ms''"
    by (simp add: intToString_65000 js_def)
  show ?thesis
    using assms(5) by (simp add: onTimeout_def t m)
qed

theorem once_timeout_floor_witness:
  "cfg_timeoutMs (makeConfig (js ''-once'') None (Some 10) Map.empty 0 asciiLowerCase codeUnitCompare) = 65000 \<and>
   map error (resolved (handle (makeConfig (js ''-once'') None (Some 10) Map.empty 0 asciiLowerCase codeUnitCompare)
      (initialSupervisor emptySmoothing) (TimeoutExpired [] 65000))) =
     [Some (js ''derpprobe timed out after 65000ms'')]"
proof -
  define cfg where "cfg = makeConfig (js ''-once'') None (Some 10) Map.empty 0 asciiLowerCase codeUnitCompare"
  have pa: "parseArgs (js ''-once'') = [js ''-once'']"
    by (simp add: parseArgs_def trim_def truthy_def split_js_def isJsonFlag_def startsWith_def
        isWhiteSpace_def isLineTerminator_def js_def)
  have a: "cfg_args cfg = [js ''-once'']"
    by (simp add: cfg_def makeConfig_def appendDerpMapArg_def pa Let_def)
  have h1: "js ''-once'' \<in> set (cfg_args cfg)"
    by (simp add: a)
  have h2: "js ''-once'' = js ''-once'' \<or> js ''-once'' = js ''--once'' \<or>
      startsWith (js ''-once'') (js ''-once='') \<or> startsWith (js ''-once'') (js ''--once='')"
    by simp
  have h3: "(10 :: int) < 65000"
    by simp
  have h4: "cfg_timeoutMs cfg = resolveTimeoutMs 10 (cfg_args cfg)"
    by (simp add: cfg_def makeConfig_def Let_def)
  have h5: "\<not> settled (initialSupervisor emptySmoothing)"
    by (simp add: initialSupervisor_def)
  from once_timeout_floor [OF h1 h2 h3 h4 h5, of "[]" 65000]
  show ?thesis
    unfolding cfg_def by (simp add: initialSupervisor_def)
qed

text \<open>
  C6 (as amended). Nodes without a key, and nodes with the same key, are ordered by
  \<^verbatim>\<open>localeCompare\<close>, the collation of the host's locale, under which \<^verbatim>\<open>a\<close> precedes
  \<^verbatim>\<open>B\<close>, and not by the case-sensitive lexical comparison, which puts \<^verbatim>\<open>B\<close> first.
  Let \<^verbatim>\<open>localeCompare\<close> be any consistent comparison and \<^verbatim>\<open>toLowerCase\<close> any function
  that lowers the basic Latin capitals of a string of ASCII characters. Then for every
  region table and every node list in which no two names that differ compare as equal:

  \<^item> a node's sort key is the table entry of its trimmed, lower-cased name, else of the
    trimmed, lower-cased first \<^verbatim>\<open>-\<close>-separated piece of its id, else of its trimmed,
    lower-cased region; a name of ASCII characters is looked up with its capitals
    lowered;
  \<^item> the comparator handed to \<^verbatim>\<open>sort\<close> is consistent on the nodes of the list;
  \<^item> the sorted list is a permutation of the input in which, of any two nodes, the
    earlier has the smaller or equal key and a node with a key precedes every node
    without one, and nodes with the same key (or both without) are ordered by
    \<^verbatim>\<open>localeCompare\<close> of their names, then of their regions;
  \<^item> two lists holding the same nodes sort to the same list, whatever their arrival
    order, when no two regions that differ compare as equal either and no two nodes
    share both name and region.
\<close>

theorem region_ordering_determined:
  assumes lc: "consistentCompare lc"
    and low: "\<forall>s. list_all (\<lambda>c. c < 128) s \<longrightarrow> lower s = asciiLowerCase s"
    and sep: "separates lc (map name nodes)"
  shows "regionSortValue lower n m =
           (case m (lower (trim (name n))) of
              Some v \<Rightarrow> Some v
            | None \<Rightarrow>
                (case m (lower (trim (takeWhile (\<lambda>c. c \<noteq> 45) (node_id n)))) of
                   Some v \<Rightarrow> Some v
                 | None \<Rightarrow> m (lower (trim (regionOrEmpty n))))) \<and>
         (list_all (\<lambda>c. c < 128) (name n) \<and> m (asciiLowerCase (trim (name n))) = Some v \<longrightarrow>
            regionSortValue lower n m = Some v) \<and>
         (\<forall>a \<in> set nodes. \<forall>b \<in> set nodes. \<forall>c \<in> set nodes.
            (compareNodes lower lc m a b < 0) = (compareNodes lower lc m b a > 0) \<and>
            (compareNodes lower lc m a b \<le> 0 \<longrightarrow> compareNodes lower lc m b c \<le> 0 \<longrightarrow>
               compareNodes lower lc m a c \<le> 0)) \<and>
         mset (sortNodes lower lc m nodes) = mset nodes \<and>
         sorted_wrt
           (\<lambda>a b. keyLe (regionSortValue lower a m) (regionSortValue lower b m) \<and>
                  (regionSortValue lower a m = regionSortValue lower b m \<longrightarrow>
                     lc (name a) (name b) \<le> 0 \<and>
                     (name a = name b \<longrightarrow> lc (regionOrEmpty a) (regionOrEmpty b) \<le> 0)))
           (sortNodes lower lc m nodes) \<and>
         (mset nodes' = mset nodes \<and> separates lc (map regionOrEmpty nodes) \<and>
          inj_on (\<lambda>n. (name n, regionOrEmpty n)) (set nodes) \<longrightarrow>
            sortNodes lower lc m nodes' = sortNodes lower lc m nodes)"
proof -
  let ?cmp = "compareNodes lower lc m"
  let ?k = "\<lambda>n. regionSortValue lower n m"
  let ?le = "\<lambda>a b. \<not> ?cmp b a < 0"
  let ?ord = "\<lambda>a b. keyLe (?k a) (?k b) \<and>
                  (?k a = ?k b \<longrightarrow>
                     lc (name a) (name b) \<le> 0 \<and>
                     (name a = name b \<longrightarrow> lc (regionOrEmpty a) (regionOrEmpty b) \<le> 0))"
  note neg = compareNodes_neg [OF lc, of lower m]
  note pos = compareNodes_pos [OF lc, of lower m]
  have le_ord: "?le a b = ?ord a b" for a b
    unfolding neg by (rule not_nodeLt_iff [OF lc])
  have key: "regionSortValue lower n m =
           (case m (lower (trim (name n))) of
              Some v \<Rightarrow> Some v
            | None \<Rightarrow>
                (case m (lower (trim (takeWhile (\<lambda>c. c \<noteq> 45) (node_id n)))) of
                   Some v \<Rightarrow> Some v
                 | None \<Rightarrow> m (lower (trim (regionOrEmpty n)))))"
    by (rule regionSortValue_resolution)
  have ascii: "regionSortValue lower n m = Some v"
    if "list_all (\<lambda>c. c < 128) (name n)" "m (asciiLowerCase (trim (name n))) = Some v"
  proof -
    from that(1) have "list_all (\<lambda>c. c < 128) (trim (name n))"
      by (rule list_all_trim)
    with low have "lower (trim (name n)) = asciiLowerCase (trim (name n))"
      by blast
    with that(2) show ?thesis
      unfolding key by simp
  qed
  have cons: "(?cmp a b < 0) = (?cmp b a > 0) \<and>
              (?cmp a b \<le> 0 \<longrightarrow> ?cmp b c \<le> 0 \<longrightarrow> ?cmp a c \<le> 0)"
    if mem: "a \<in> set nodes" "b \<in> set nodes" "c \<in> set nodes" for a b c
  proof
    show "(?cmp a b < 0) = (?cmp b a > 0)"
      unfolding neg pos ..
    show "?cmp a b \<le> 0 \<longrightarrow> ?cmp b c \<le> 0 \<longrightarrow> ?cmp a c \<le> 0"
    proof (intro impI)
      assume "?cmp a b \<le> 0" "?cmp b c \<le> 0"
      then have "\<not> nodeLt lower lc m b a" "\<not> nodeLt lower lc m c b"
        unfolding pos [symmetric] by simp_all
      with lc sep mem have "\<not> nodeLt lower lc m c a"
        by (rule not_nodeLt_trans)
      then show "?cmp a c \<le> 0"
        unfolding pos [symmetric] by simp
    qed
  qed
  have tr: "\<And>a b c. ?cmp a b < 0 \<Longrightarrow> ?cmp b c < 0 \<Longrightarrow> ?cmp a c < 0"
    unfolding neg using lc by (rule nodeLt_trans)
  have irr: "\<And>a. \<not> ?cmp a a < 0"
    unfolding neg using lc by (rule nodeLt_irrefl)
  have srt: "\<And>xs. sorted_wrt ?le (sortNodes lower lc m xs)"
    unfolding sortNodes_def using tr irr by (rule sorted_sort_js)
  have perm: "\<And>xs. mset (sortNodes lower lc m xs) = mset xs"
    by (simp add: sortNodes_def mset_sort_js)
  have sorted: "sorted_wrt ?ord (sortNodes lower lc m nodes)"
    using srt [of nodes] unfolding le_ord .
  have det: "sortNodes lower lc m nodes' = sortNodes lower lc m nodes"
    if m: "mset nodes' = mset nodes" and rsep: "separates lc (map regionOrEmpty nodes)"
      and inj: "inj_on (\<lambda>n. (name n, regionOrEmpty n)) (set nodes)"
  proof (rule sorted_wrt_unique [where le = ?le])
    show "\<And>a. ?le a a" by (rule irr)
    show "sorted_wrt ?le (sortNodes lower lc m nodes')" by (rule srt)
    show "sorted_wrt ?le (sortNodes lower lc m nodes)" by (rule srt)
    show "mset (sortNodes lower lc m nodes') = mset (sortNodes lower lc m nodes)"
      by (simp add: perm m)
    have s: "set (sortNodes lower lc m nodes') = set nodes"
      using perm [of nodes'] m by (metis mset_eq_setD)
    show "\<forall>a \<in> set (sortNodes lower lc m nodes'). \<forall>b \<in> set (sortNodes lower lc m nodes').
            ?le a b \<longrightarrow> ?le b a \<longrightarrow> a = b"
      unfolding s
    proof (intro ballI impI)
      fix a b
      assume a: "a \<in> set nodes" and b: "b \<in> set nodes" and "?le a b" "?le b a"
      then have ab: "?ord a b" and ba: "?ord b a"
        unfolding le_ord by blast+
      from ab ba have k: "?k a = ?k b"
        by (blast intro: keyLe_antisym)
      with ab ba have "lc (name a) (name b) \<le> 0" "lc (name b) (name a) \<le> 0"
        by simp_all
      with lc have "lc (name a) (name b) = 0"
        by (rule consistentCompare_zero)
      moreover have "name a \<in> set (map name nodes)" "name b \<in> set (map name nodes)"
        using a b by simp_all
      ultimately have nm: "name a = name b"
        using sep by (blast intro: separates_eq)
      with k ab ba have "lc (regionOrEmpty a) (regionOrEmpty b) \<le> 0"
        "lc (regionOrEmpty b) (regionOrEmpty a) \<le> 0"
        by simp_all
      with lc have "lc (regionOrEmpty a) (regionOrEmpty b) = 0"
        by (rule consistentCompare_zero)
      moreover have "regionOrEmpty a \<in> set (map regionOrEmpty nodes)"
        "regionOrEmpty b \<in> set (map regionOrEmpty nodes)"
        using a b by simp_all
      ultimately have rg: "regionOrEmpty a = regionOrEmpty b"
        using rsep by (blast intro: separates_eq)
      from inj a b nm rg show "a = b"
        by (auto dest: inj_onD)
    qed
  qed
  show ?thesis
    using key ascii cons perm [of nodes] sorted det by blast
qed

theorem region_ordering_determined_counterexample:
  "sortNodes asciiLowerCase rootCollate Map.empty
     [\<lparr>node_id = js ''B-eu'', name = js ''B'', region = Some (js ''eu''), latencyMs = None,
       lossPct = None, avgLatencyMs = None, status = Healthy, message = None, checkedAt = [],
       raw = None\<rparr>,
      \<lparr>node_id = js ''a-eu'', name = js ''a'', region = Some (js ''eu''), latencyMs = None,
       lossPct = None, avgLatencyMs = None, status = Healthy, message = None, checkedAt = [],
       raw = None\<rparr>] =
     [\<lparr>node_id = js ''a-eu'', name = js ''a'', region = Some (js ''eu''), latencyMs = None,
       lossPct = None, avgLatencyMs = None, status = Healthy, message = None, checkedAt = [],
       raw = None\<rparr>,
      \<lparr>node_id = js ''B-eu'', name = js ''B'', region = Some (js ''eu''), latencyMs = None,
       lossPct = None, avgLatencyMs = None, status = Healthy, message = None, checkedAt = [],
       raw = None\<rparr>] \<and>
   codeUnitCompare (js ''B'') (js ''a'') < 0"
  by (simp add: sortNodes_def sort_js_def compareNodes_def regionSortValue_def regionOrEmpty_def
      rootCollate_def foldCase_def caseWeight_def isUpper_def js_def split_js_def)

theorem region_ordering_determined_witness:
  "consistentCompare rootCollate \<and>
   map name (sortNodes asciiLowerCase rootCollate [js ''sea'' \<mapsto> 1, js ''nyc'' \<mapsto> 2]
     [\<lparr>node_id = js ''x-1'', name = js ''B'', region = Some (js ''eu''), latencyMs = None,
       lossPct = None, avgLatencyMs = None, status = Healthy, message = None, checkedAt = [],
       raw = None\<rparr>,
      \<lparr>node_id = js ''nyc-us'', name = js ''nyc'', region = Some (js ''us''), latencyMs = None,
       lossPct = None, avgLatencyMs = None, status = Healthy, message = None, checkedAt = [],
       raw = None\<rparr>,
      \<lparr>node_id = js ''x-2'', name = js ''a'', region = Some (js ''eu''), latencyMs = None,
       lossPct = None, avgLatencyMs = None, status = Healthy, message = None, checkedAt = [],
       raw = None\<rparr>,
      \<lparr>node_id = js ''x-3'', name = js ''SEA'', region = Some (js ''us''), latencyMs = None,
       lossPct = None, avgLatencyMs = None, status = Healthy, message = None, checkedAt = [],
       raw = None\<rparr>]) = [js ''SEA'', js ''nyc'', js ''a'', js ''B'']"
proof -
  define nB where "nB = \<lparr>node_id = js ''x-1'', name = js ''B'', region = Some (js ''eu''),
      latencyMs = None, lossPct = None, avgLatencyMs = None, status = Healthy, message = None,
      checkedAt = [], raw = None\<rparr>"
  define nyc where "nyc = \<lparr>node_id = js ''nyc-us'', name = js ''nyc'', region = Some (js ''us''),
      latencyMs = None, lossPct = None, avgLatencyMs = None, status = Healthy, message = None,
      checkedAt = [], raw = None\<rparr>"
  define na where "na = \<lparr>node_id = js ''x-2'', name = js ''a'', region = Some (js ''eu''),
      latencyMs = None, lossPct = None, avgLatencyMs = None, status = Healthy, message = None,
      checkedAt = [], raw = None\<rparr>"
  define sea where "sea = \<lparr>node_id = js ''x-3'', name = js ''SEA'', region = Some (js ''us''),
      latencyMs = None, lossPct = None, avgLatencyMs = None, status = Healthy, message = None,
      checkedAt = [], raw = None\<rparr>"
  define m :: "jsstring \<rightharpoonup> rat" where "m = [js ''sea'' \<mapsto> 1, js ''nyc'' \<mapsto> 2]"
  have lc: "consistentCompare rootCollate"
    by (rule consistentCompare_rootCollate)
  have low: "\<forall>s. list_all (\<lambda>c. c < 128) s \<longrightarrow> asciiLowerCase s = asciiLowerCase s"
    by simp
  have sep: "separates rootCollate (map name [nB, nyc, na, sea])"
    "separates rootCollate (map regionOrEmpty [nB, nyc, na, sea])"
    by (rule linear_separates, rule rootCollate_zero)+
  have inj: "inj_on (\<lambda>n. (name n, regionOrEmpty n)) (set [nB, nyc, na, sea])"
    by (simp add: nB_def nyc_def na_def sea_def js_def)
  have perm: "mset [sea, nyc, na, nB] = mset [nB, nyc, na, sea]"
    by simp
  note th = region_ordering_determined [OF lc low sep(1), of sea m 1 "[sea, nyc, na, nB]"]
  have ascii: "list_all (\<lambda>c. c < 128) (name sea)"
    by (simp add: sea_def js_def)
  have look: "m (asciiLowerCase (trim (name sea))) = Some 1"
    by (simp add: sea_def m_def js_def trim_def asciiLowerCase_def foldCase_def isUpper_def
        isWhiteSpace_def isLineTerminator_def)
  from th ascii look have k1: "regionSortValue asciiLowerCase sea m = Some 1"
    by blast
  from th perm sep(2) inj
  have same: "sortNodes asciiLowerCase rootCollate m [sea, nyc, na, nB] =
              sortNodes asciiLowerCase rootCollate m [nB, nyc, na, sea]"
    by blast
  have k2: "regionSortValue asciiLowerCase nyc m = Some 2"
    by (simp add: regionSortValue_def nyc_def m_def js_def trim_def asciiLowerCase_def
        foldCase_def isUpper_def isWhiteSpace_def isLineTerminator_def)
  have k3: "regionSortValue asciiLowerCase na m = None"
    by (simp add: regionSortValue_def na_def m_def js_def trim_def asciiLowerCase_def
        foldCase_def isUpper_def isWhiteSpace_def isLineTerminator_def split_js_def)
  have k4: "regionSortValue asciiLowerCase nB m = None"
    by (simp add: regionSortValue_def nB_def m_def js_def trim_def asciiLowerCase_def
        foldCase_def isUpper_def isWhiteSpace_def isLineTerminator_def split_js_def)
  have c: "compareNodes asciiLowerCase rootCollate m nyc sea = 1"
    "compareNodes asciiLowerCase rootCollate m na nyc = 1"
    "compareNodes asciiLowerCase rootCollate m na sea = 1"
    "compareNodes asciiLowerCase rootCollate m nB na = 1"
    "compareNodes asciiLowerCase rootCollate m nB nyc = 1"
    "compareNodes asciiLowerCase rootCollate m nB sea = 1"
    by (simp_all add: compareNodes_def k1 k2 k3 k4)
      (simp_all add: nB_def na_def rootCollate_def foldCase_def caseWeight_def isUpper_def js_def)
  have "sortNodes asciiLowerCase rootCollate m [sea, nyc, na, nB] = [sea, nyc, na, nB]"
    by (simp add: sortNodes_def sort_js_def c)
  with same have "sortNodes asciiLowerCase rootCollate m [nB, nyc, na, sea] = [sea, nyc, na, nB]"
    by simp
  then have "map name (sortNodes asciiLowerCase rootCollate m [nB, nyc, na, sea]) =
      [js ''SEA'', js ''nyc'', js ''a'', js ''B'']"
    by (simp add: sea_def nyc_def na_def nB_def)
  with lc show ?thesis
    unfolding m_def nB_def nyc_def na_def sea_def by simp
qed


text \<open>
  C8. A good line for probe type \<^verbatim>\<open>udp\<close> stores in its node what \<^verbatim>\<open>parseLatencyMs\<close>
  reads from the result text, and leaves the node's latency as it was when nothing is
  read. \<^verbatim>\<open>parseLatencyMs\<close> reads the leftmost place where the text holds a number
  (digits, optionally a point and more digits), optional white space, a unit, and then
  the end of the text or a character that is not a word character. The units are
  \<^verbatim>\<open>ms\<close>, \<^verbatim>\<open>\<mu>s\<close> written with the micro sign U+00B5 or with a Greek mu, and \<^verbatim>\<open>us\<close>,
  in either case. Nothing is read when no place of the text holds such a token, nor when
  the number is too large for a finite double. A millisecond value is rounded to an
  integer. A microsecond value \<open>v\<close> is divided by 1000 as a double and rounded to two
  decimals: the result is a multiple of 1/100 at most 1/200 away from the double
  quotient, which the rounding of the two double operations keeps within
  \<open>v / 2 ^ 61 + 1 / 2 ^ 1074\<close> of \<open>v / 1000\<close>.
\<close>

theorem latency_pattern_units:
  fixes e :: ProbeEvent
  assumes "ev_level e = js ''good''" "ev_probeType e = js ''udp''"
  shows
    "(\<exists>n. map_of (applyEvent flag nodeMap e) (ev_id e) = Some n \<and>
          udpLatencyMs n =
            (case parseLatencyMs (ev_resultText e) of
               Some l \<Rightarrow> Some l
             | None \<Rightarrow> (case map_of nodeMap (ev_id e) of
                          None \<Rightarrow> None
                        | Some old \<Rightarrow> udpLatencyMs old))) \<and>
     ((\<forall>k ds fs u. \<not> startsWithLatency (drop k (ev_resultText e)) ds fs u) \<longrightarrow>
        parseLatencyMs (ev_resultText e) = None) \<and>
     (\<forall>pre s ds fs u.
        ev_resultText e = pre @ s \<and> startsWithLatency s ds fs u \<and>
        (\<forall>k < length pre. \<forall>ds' fs' u'. \<not> startsWithLatency (drop k (ev_resultText e)) ds' fs' u') \<longrightarrow>
        parseLatencyMs (ev_resultText e) =
          (if \<not> isFinite (fl (decimalValue ds fs)) then None
           else if u \<in> {js ''ms'', js ''mS'', js ''Ms'', js ''MS''}
           then Some (of_int (round (fl (decimalValue ds fs))))
           else Some (of_int (round (fl (fl (decimalValue ds fs) / 1000) * 100)) / 100))) \<and>
     {js ''ms'', [181, 115], [956, 115], js ''us''} \<subseteq> set latencyUnits \<and>
     (\<forall>v \<ge> 0.
        \<bar>of_int (round (fl (fl v / 1000) * 100)) / 100 - fl (fl v / 1000)\<bar> \<le> 1 / 200 \<and>
        \<bar>fl (fl v / 1000) - v / 1000\<bar> \<le> v / 2 ^ 61 + 1 / 2 ^ 1074)"
proof -
  let ?t = "ev_resultText e"
  have stored: "\<exists>n. map_of (applyEvent flag nodeMap e) (ev_id e) = Some n \<and>
          udpLatencyMs n =
            (case parseLatencyMs ?t of
               Some l \<Rightarrow> Some l
             | None \<Rightarrow> (case map_of nodeMap (ev_id e) of
                          None \<Rightarrow> None
                        | Some old \<Rightarrow> udpLatencyMs old))"
    using assms by (rule applyEvent_good_udp)
  have none: "parseLatencyMs ?t = None"
    if "\<forall>k ds fs u. \<not> startsWithLatency (drop k ?t) ds fs u"
  proof -
    from that have "\<forall>k. matchLatencyAt (drop k ?t) = None"
      by (simp add: matchLatencyAt_None_iff)
    then have "searchLatency ?t = None"
      by (rule searchLatency_None)
    then show ?thesis
      by (simp add: parseLatencyMs_def)
  qed
  have found: "parseLatencyMs ?t =
          (if \<not> isFinite (fl (decimalValue ds fs)) then None
           else if u \<in> {js ''ms'', js ''mS'', js ''Ms'', js ''MS''}
           then Some (of_int (round (fl (decimalValue ds fs))))
           else Some (of_int (round (fl (fl (decimalValue ds fs) / 1000) * 100)) / 100))"
    if t: "?t = pre @ s" and tok: "startsWithLatency s ds fs u"
      and left: "\<forall>k < length pre. \<forall>ds' fs' u'. \<not> startsWithLatency (drop k ?t) ds' fs' u'"
    for pre s ds fs u
  proof -
    from tok have m: "matchLatencyAt s = Some (ds, fs, u)"
      by (simp add: matchLatencyAt_iff)
    from left have "\<forall>k < length pre. matchLatencyAt (drop k (pre @ s)) = None"
      unfolding t by (simp add: matchLatencyAt_None_iff)
    with m have sl: "searchLatency ?t = Some (ds, fs, u)"
      unfolding t by (rule searchLatency_leftmost)
    from tok have "u \<in> set latencyUnits"
      by (auto simp: startsWithLatency_def)
    then have low: "(unitToLowerCase u = js ''ms'') = (u \<in> {js ''ms'', js ''mS'', js ''Ms'', js ''MS''})"
      by (rule unitToLowerCase_ms)
    have "0 \<le> fl (fl (decimalValue ds fs) / 1000)"
      by (intro fl_nonneg divide_nonneg_nonneg decimalValue_nonneg) simp
    then have tf: "toFixed2 (fl (fl (decimalValue ds fs) / 1000)) =
        of_int (round (fl (fl (decimalValue ds fs) / 1000) * 100)) / 100"
      by (simp add: toFixed2_def)
    show ?thesis
      by (simp add: parseLatencyMs_def sl Let_def low tf)
  qed
  have units: "{js ''ms'', [181, 115], [956, 115], js ''us''} \<subseteq> set latencyUnits"
    by (simp add: latencyUnits_def js_def)
  have near: "\<bar>of_int (round (fl (fl v / 1000) * 100)) / 100 - fl (fl v / 1000)\<bar> \<le> 1 / 200 \<and>
        \<bar>fl (fl v / 1000) - v / 1000\<bar> \<le> v / 2 ^ 61 + 1 / 2 ^ 1074" if v: "0 \<le> v" for v
  proof -
    have "0 \<le> fl (fl v / 1000)"
      by (intro fl_nonneg divide_nonneg_nonneg v) simp
    then have tf: "toFixed2 (fl (fl v / 1000)) = of_int (round (fl (fl v / 1000) * 100)) / 100"
      by (simp add: toFixed2_def)
    have p: "(2305843009213693952 :: rat) = 2 ^ 61"
      by simp
    from microseconds_near [OF v] show ?thesis
      unfolding tf p by blast
  qed
  from stored none found units near show ?thesis
    by blast
qed

theorem latency_pattern_units_witness:
  "lineEvent (js ''good: derp/nyc/us-east/udp: rtt 2 15'' @ [181, 115]) =
     Some \<lparr>ev_level = js ''good'', ev_shortRegion = js ''nyc'', ev_cloudRegion = js ''us-east'',
           ev_probeType = js ''udp'', ev_resultText = js ''rtt 2 15'' @ [181, 115]\<rparr> \<and>
   parseLatencyMs (js ''rtt 2 15'' @ [181, 115]) = Some (1 / 100) \<and>
   parseLatencyMs (js ''no reply'') = None \<and>
   \<bar>1 / 100 - fl (fl 15 / 1000)\<bar> \<le> 1 / 200"
proof -
  define e where "e = \<lparr>ev_level = js ''good'', ev_shortRegion = js ''nyc'',
      ev_cloudRegion = js ''us-east'', ev_probeType = js ''udp'',
      ev_resultText = js ''rtt 2 15'' @ [181, 115]\<rparr>"
  define e' where "e' = \<lparr>ev_level = js ''good'', ev_shortRegion = js ''nyc'',
      ev_cloudRegion = js ''us-east'', ev_probeType = js ''udp'',
      ev_resultText = js ''no reply''\<rparr>"
  have le: "lineEvent (js ''good: derp/nyc/us-east/udp: rtt 2 15'' @ [181, 115]) = Some e"
    by (simp add: e_def js_def startsWith_def isWhiteSpace_def isLineTerminator_def
        split_js_def dropSpaces1_def matchRest_def matchLine_def lineEvent_def)
  have h: "ev_level e = js ''good''" "ev_probeType e = js ''udp''"
    by (simp_all add: e_def)
  have h': "ev_level e' = js ''good''" "ev_probeType e' = js ''udp''"
    by (simp_all add: e'_def)
  have t: "ev_resultText e = js ''rtt 2 '' @ (js ''15'' @ [181, 115])"
    by (simp add: e_def js_def)
  have tok: "startsWithLatency (js ''15'' @ [181, 115]) (js ''15'') [] [181, 115]"
    unfolding matchLatencyAt_iff [symmetric]
    by (simp add: matchLatencyAt_def js_def isDigit_def isWhiteSpace_def isLineTerminator_def
        isUnitStart_def)
  have left: "\<forall>k < length (js ''rtt 2 ''). \<forall>ds' fs' u'.
      \<not> startsWithLatency (drop k (ev_resultText e)) ds' fs' u'"
  proof (intro allI impI)
    fix k ds' fs' u'
    assume "k < length (js ''rtt 2 '')"
    then have "k = 0 \<or> k = 1 \<or> k = 2 \<or> k = 3 \<or> k = 4 \<or> k = 5"
      by (simp add: js_def) arith
    then have "matchLatencyAt (drop k (ev_resultText e)) = None"
      by (elim disjE)
        (simp_all add: e_def matchLatencyAt_def js_def isDigit_def isWhiteSpace_def
          isLineTerminator_def isUnitStart_def)
    then show "\<not> startsWithLatency (drop k (ev_resultText e)) ds' fs' u'"
      by (simp add: matchLatencyAt_None_iff)
  qed
  have no: "\<forall>k ds fs u. \<not> startsWithLatency (drop k (ev_resultText e')) ds fs u"
  proof (intro allI)
    fix k ds fs u
    have "\<forall>c \<in> set (ev_resultText e'). \<not> isDigit c"
      by (simp add: e'_def js_def isDigit_def)
    then have "matchLatencyAt (drop k (ev_resultText e')) = None"
      by (rule matchLatencyAt_no_digit)
    then show "\<not> startsWithLatency (drop k (ev_resultText e')) ds fs u"
      by (simp add: matchLatencyAt_None_iff)
  qed
  have v: "decimalValue (js ''15'') [] = 15"
    by (simp add: decimalValue_def digitsValue_def js_def)
  have f1: "fl 15 = 15"
    by code_simp
  have f2: "round (fl (15 / 1000) * 100) = 1"
    by code_simp
  have fin: "isFinite 15"
    by (simp add: isFinite_def)
  have ne: "[181, 115] \<notin> {js ''ms'', js ''mS'', js ''Ms'', js ''MS''}"
    by (simp add: js_def)
  note th = latency_pattern_units [OF h, of False "[]"]
  note th' = latency_pattern_units [OF h', of False "[]"]
  note found = th [THEN conjunct2, THEN conjunct2, THEN conjunct1, rule_format,
      of "js ''rtt 2 ''" "js ''15'' @ [181, 115]" "js ''15''" "[]" "[181, 115]"]
  from found t tok left have p: "parseLatencyMs (ev_resultText e) = Some (1 / 100)"
    unfolding v f1 using fin ne f2 by simp
  from th' [THEN conjunct2, THEN conjunct1] no
  have q: "parseLatencyMs (ev_resultText e') = None"
    by blast
  have "(0 :: rat) \<le> 15"
    by simp
  with th [THEN conjunct2, THEN conjunct2, THEN conjunct2, THEN conjunct2, rule_format, of 15]
  have "\<bar>of_int (round (fl (fl 15 / 1000) * 100)) / 100 - fl (fl 15 / 1000)\<bar> \<le> 1 / 200"
    by blast
  then have r: "\<bar>1 / 100 - fl (fl 15 / 1000)\<bar> \<le> 1 / 200"
    unfolding f1 f2 by simp
  from p q r show ?thesis
    using le by (simp add: e_def e'_def)
qed

text \<open>
  C9. Let any sequence of timer, data, error and close events reach the handlers of one
  invocation. \<^verbatim>\<open>resolve\<close> is called once when the sequence holds a timer, error or close
  event, and never otherwise; the one call is made by the handler of the first such event,
  in the state the data events before it have built, so a timer event yields the timed-out
  response and an error event the launch-failure response; and once the result is
  produced, every later timer, error or close event leaves the whole state unchanged and
  no later event changes the result.
\<close>

theorem exactly_once_resolution:
  "length (resolved (runEvents cfg (initialSupervisor sm) evs)) =
     (if list_ex isTerminal evs then 1 else 0) \<and>
   (\<forall>pre e post. evs = pre @ e # post \<and> isTerminal e \<and> \<not> list_ex isTerminal pre \<longrightarrow>
      resolved (runEvents cfg (initialSupervisor sm) evs) =
        resolved (handle cfg (runEvents cfg (initialSupervisor sm) pre) e) \<and>
      stderrText (runEvents cfg (initialSupervisor sm) pre) = chunksOf pre \<and>
      (\<forall>stamp endNow. e = TimeoutExpired stamp endNow \<longrightarrow>
         resolved (runEvents cfg (initialSupervisor sm) evs) =
           [\<lparr>ok = False, r_checkedAt = stamp, durationMs = endNow - cfg_startedAt cfg,
             summary = emptySummary, r_nodes = [], r_stderr = Some (chunksOf pre),
             error = Some (js ''derpprobe timed out after '' @ intToString (cfg_timeoutMs cfg) @
                           js ''ms'')\<rparr>]) \<and>
      (\<forall>msg stamp endNow. e = ProcessError msg stamp endNow \<longrightarrow>
         resolved (runEvents cfg (initialSupervisor sm) evs) =
           [\<lparr>ok = False, r_checkedAt = stamp, durationMs = endNow - cfg_startedAt cfg,
             summary = emptySummary, r_nodes = [], r_stderr = Some (chunksOf pre),
             error = Some msg\<rparr>])) \<and>
   (settled (runEvents cfg (initialSupervisor sm) evs) \<longrightarrow>
      (\<forall>e. isTerminal e \<longrightarrow>
           handle cfg (runEvents cfg (initialSupervisor sm) evs) e =
           runEvents cfg (initialSupervisor sm) evs) \<and>
      (\<forall>more. resolved (runEvents cfg (initialSupervisor sm) (evs @ more)) =
              resolved (runEvents cfg (initialSupervisor sm) evs)))"
proof -
  let ?s0 = "initialSupervisor sm"
  have s0: "\<not> settled ?s0" "resolved ?s0 = []" "stderrText ?s0 = []"
    by (simp_all add: initialSupervisor_def)
  have count: "length (resolved (runEvents cfg ?s0 evs)) = (if list_ex isTerminal evs then 1 else 0)"
  proof (cases "list_ex isTerminal evs")
    case True
    from first_terminal_split [OF True] obtain pre e post where
      sp: "evs = pre @ e # post" "isTerminal e" "\<not> list_ex isTerminal pre"
      by blast
    from runEvents_first_terminal(2) [OF s0(1) sp(2,3), of cfg post] s0(2) True
    show ?thesis by (simp add: sp(1))
  next
    case False
    from runEvents_data_only [OF False, of cfg ?s0] s0(2) False
    show ?thesis by simp
  qed
  have first: "resolved (runEvents cfg ?s0 evs) = resolved (handle cfg (runEvents cfg ?s0 pre) e) \<and>
      stderrText (runEvents cfg ?s0 pre) = chunksOf pre \<and>
      (\<forall>stamp endNow. e = TimeoutExpired stamp endNow \<longrightarrow>
         resolved (runEvents cfg ?s0 evs) =
           [\<lparr>ok = False, r_checkedAt = stamp, durationMs = endNow - cfg_startedAt cfg,
             summary = emptySummary, r_nodes = [], r_stderr = Some (chunksOf pre),
             error = Some (js ''derpprobe timed out after '' @ intToString (cfg_timeoutMs cfg) @
                           js ''ms'')\<rparr>]) \<and>
      (\<forall>msg stamp endNow. e = ProcessError msg stamp endNow \<longrightarrow>
         resolved (runEvents cfg ?s0 evs) =
           [\<lparr>ok = False, r_checkedAt = stamp, durationMs = endNow - cfg_startedAt cfg,
             summary = emptySummary, r_nodes = [], r_stderr = Some (chunksOf pre),
             error = Some msg\<rparr>])"
    if sp: "evs = pre @ e # post" "isTerminal e" "\<not> list_ex isTerminal pre" for pre e post
  proof -
    let ?p = "runEvents cfg ?s0 pre"
    from runEvents_data_only [OF sp(3), of cfg ?s0] s0
    have p: "\<not> settled ?p" "resolved ?p = []" "stderrText ?p = chunksOf pre"
      by simp_all
    have r: "resolved (runEvents cfg ?s0 evs) = resolved (handle cfg ?p e)"
      unfolding sp(1) using s0(1) sp(2,3) by (rule runEvents_first_terminal(1))
    show ?thesis
      unfolding r using p by (simp add: onTimeout_def onError_def)
  qed
  have later: "(\<forall>e. isTerminal e \<longrightarrow> handle cfg (runEvents cfg ?s0 evs) e = runEvents cfg ?s0 evs) \<and>
      (\<forall>more. resolved (runEvents cfg ?s0 (evs @ more)) = resolved (runEvents cfg ?s0 evs))"
    if st: "settled (runEvents cfg ?s0 evs)"
  proof -
    have "handle cfg (runEvents cfg ?s0 evs) e = runEvents cfg ?s0 evs" if "isTerminal e" for e
      using st that by (rule handle_settled_terminal)
    moreover have "resolved (runEvents cfg ?s0 (evs @ more)) = resolved (runEvents cfg ?s0 evs)"
      for more
      unfolding runEvents_append using runEvents_settled [OF st, of cfg more] by simp
    ultimately show ?thesis by blast
  qed
  show ?thesis
    using count first later by blast
qed

theorem exactly_once_resolution_witness:
  "map error (resolved (runEvents
      \<lparr>cfg_args = [js ''-once''], cfg_timeoutMs = 65000, cfg_regionIdMap = Map.empty,
        cfg_startedAt = 0, cfg_toLowerCase = asciiLowerCase,
        cfg_localeCompare = codeUnitCompare\<rparr>
      (initialSupervisor emptySmoothing)
      [StderrData (js ''good: derp/nyc/us-east/udp: 31ms''), TimeoutExpired [] 65000,
       ProcessClose (Some 0) [] 65010 65010 65010, ProcessError (js ''spawn failed'') [] 65020]))
   = [Some (js ''derpprobe timed out after 65000ms'')]"
proof -
  define cfg where "cfg = \<lparr>cfg_args = [js ''-once''], cfg_timeoutMs = 65000,
      cfg_regionIdMap = Map.empty :: jsstring \<rightharpoonup> rat,
      cfg_startedAt = 0, cfg_toLowerCase = asciiLowerCase,
        cfg_localeCompare = codeUnitCompare\<rparr>"
  define pre where "pre = [StderrData (js ''good: derp/nyc/us-east/udp: 31ms'')]"
  define post where "post = [ProcessClose (Some 0) [] 65010 65010 65010,
      ProcessError (js ''spawn failed'') [] 65020]"
  have sp: "pre @ TimeoutExpired [] 65000 # post = pre @ TimeoutExpired [] 65000 # post \<and>
      isTerminal (TimeoutExpired [] 65000) \<and> \<not> list_ex isTerminal pre"
    by (simp add: pre_def)
  from exactly_once_resolution [of cfg emptySmoothing "pre @ TimeoutExpired [] 65000 # post",
      THEN conjunct2, THEN conjunct1, rule_format, OF sp,
      THEN conjunct2, THEN conjunct2, THEN conjunct1, rule_format, OF refl]
  have "map error (resolved (runEvents cfg (initialSupervisor emptySmoothing)
      (pre @ TimeoutExpired [] 65000 # post))) =
      [Some (js ''derpprobe timed out after '' @ intToString 65000 @ js ''ms'')]"
    by (simp add: cfg_def)
  then show ?thesis
    unfolding cfg_def pre_def post_def by (simp add: intToString_65000 js_def)
qed


text \<open>
  C10. A configured argument string that is empty or holds only white space makes
  \<^verbatim>\<open>parseArgs\<close> return exactly \<^verbatim>\<open>['-once']\<close>; whatever derp-map argument is appended
  afterwards, the list still has the single-shot flag, so the effective timeout is the
  configured one raised to the floor of 65000 ms.
\<close>

theorem blank_args_select_once:
  assumes "\<forall>c \<in> set argsText. isWhiteSpace c"
  shows "parseArgs argsText = [js ''-once''] \<and>
         hasOnceFlag (appendDerpMapArg (parseArgs argsText) derpMap) \<and>
         resolveTimeoutMs t (appendDerpMapArg (parseArgs argsText) derpMap) = max t 65000"
proof -
  from assms have "trim argsText = []"
    by (simp add: trim_blank_iff)
  then have p: "parseArgs argsText = [js ''-once'']"
    by (simp add: parseArgs_def truthy_def)
  have h: "hasOnceFlag (appendDerpMapArg [js ''-once''] derpMap)"
    using isOnceToken_once
    by (auto simp: appendDerpMapArg_def hasOnceFlag_append split: option.split)
  then have "resolveTimeoutMs t (appendDerpMapArg [js ''-once''] derpMap) = max t 65000"
    by (simp add: resolveTimeoutMs_def MIN_ONCE_TIMEOUT_MS_def)
  with p h show ?thesis by simp
qed

theorem blank_args_select_once_witness:
  "parseArgs (js ''  '') = [js ''-once''] \<and>
   hasOnceFlag (appendDerpMapArg (parseArgs (js ''  '')) (Some (js ''/tmp/derp-map.json''))) \<and>
   resolveTimeoutMs 10 (appendDerpMapArg (parseArgs (js ''  '')) (Some (js ''/tmp/derp-map.json'')))
     = 65000"
proof -
  have "\<forall>c \<in> set (js ''  ''). isWhiteSpace c"
    by (simp add: js_def isWhiteSpace_def)
  then have r: "parseArgs (js ''  '') = [js ''-once''] \<and>
         hasOnceFlag (appendDerpMapArg (parseArgs (js ''  '')) (Some (js ''/tmp/derp-map.json''))) \<and>
         resolveTimeoutMs 10 (appendDerpMapArg (parseArgs (js ''  '')) (Some (js ''/tmp/derp-map.json'')))
           = max 10 65000"
    by (rule blank_args_select_once)
  have m: "max (10 :: int) 65000 = 65000"
    by simp
  show ?thesis
    using r unfolding m .
qed

end
